theory Spec2Isabelle
  imports Complex_Main "HOL-Library.Monad_Syntax" "HOL-Library.Word"
begin

section \<open>The working real type\<close>

text \<open>
  The solver computes in C++ \<open>double\<close>.  The model keeps the four kinds of value that the
  code distinguishes (finite, the two infinities, NaN) and the IEEE rules for them; on
  finite values the arithmetic is exact (rounding and overflow of binary64 are not part
  of the model).
\<close>

datatype dbl = Fin real | PInf | MInf | NaN

fun dneg :: "dbl \<Rightarrow> dbl" where
  "dneg (Fin x) = Fin (- x)"
| "dneg PInf = MInf"
| "dneg MInf = PInf"
| "dneg NaN = NaN"

fun dadd :: "dbl \<Rightarrow> dbl \<Rightarrow> dbl" where
  "dadd (Fin x) (Fin y) = Fin (x + y)"
| "dadd (Fin x) PInf = PInf"
| "dadd (Fin x) MInf = MInf"
| "dadd PInf (Fin y) = PInf"
| "dadd PInf PInf = PInf"
| "dadd PInf MInf = NaN"
| "dadd MInf (Fin y) = MInf"
| "dadd MInf MInf = MInf"
| "dadd MInf PInf = NaN"
| "dadd NaN y = NaN"
| "dadd x NaN = NaN"

definition dsub :: "dbl \<Rightarrow> dbl \<Rightarrow> dbl" where
  "dsub x y = dadd x (dneg y)"

fun dless :: "dbl \<Rightarrow> dbl \<Rightarrow> bool" where
  "dless (Fin x) (Fin y) = (x < y)"
| "dless (Fin x) PInf = True"
| "dless (Fin x) MInf = False"
| "dless PInf y = False"
| "dless MInf (Fin y) = True"
| "dless MInf PInf = True"
| "dless MInf MInf = False"
| "dless NaN y = False"
| "dless x NaN = False"

text \<open>The operators \<open>==\<close> and \<open>!=\<close> of the C++ type: NaN differs from everything.\<close>

definition deq :: "dbl \<Rightarrow> dbl \<Rightarrow> bool" where
  "deq x y = (x \<noteq> NaN \<and> x = y)"

definition dne :: "dbl \<Rightarrow> dbl \<Rightarrow> bool" where
  "dne x y = (\<not> deq x y)"

definition dle :: "dbl \<Rightarrow> dbl \<Rightarrow> bool" where
  "dle x y = (dless x y \<or> deq x y)"

section \<open>Vectors and loops\<close>

text \<open>
  \<open>intptr_t\<close> is \<open>int\<close>.  A subscript outside a vector or a buffer is undefined behaviour
  in C++; the model returns \<open>None\<close> there, and \<open>None\<close> propagates to the caller.
\<close>

definition rd :: "'a list \<Rightarrow> int \<Rightarrow> 'a option" where
  "rd xs i = (if 0 \<le> i \<and> i < int (length xs) then Some (xs ! nat i) else None)"

definition wr :: "'a list \<Rightarrow> int \<Rightarrow> 'a \<Rightarrow> 'a list option" where
  "wr xs i x = (if 0 \<le> i \<and> i < int (length xs) then Some (xs[nat i := x]) else None)"

text \<open>\<open>for (it = lo; it < n; it++) body\<close>, the body threading a state.\<close>

function for_loop :: "int \<Rightarrow> int \<Rightarrow> (int \<Rightarrow> 's \<Rightarrow> 's option) \<Rightarrow> 's \<Rightarrow> 's option" where
  "for_loop it n body s =
     (if it < n
      then (case body it s of None \<Rightarrow> None | Some s' \<Rightarrow> for_loop (it + 1) n body s')
      else Some s)"
  by pat_completeness auto
termination
  by (relation "measure (\<lambda>(it, n, body, s). nat (n - it))") auto

text \<open>The same loop with a body that may \<open>return\<close> from the enclosing function (\<open>Inl\<close>).\<close>

function for_loop_ret ::
  "int \<Rightarrow> int \<Rightarrow> (int \<Rightarrow> 's \<Rightarrow> ('r + 's) option) \<Rightarrow> 's \<Rightarrow> ('r + 's) option" where
  "for_loop_ret it n body s =
     (if it < n
      then (case body it s of
              None \<Rightarrow> None
            | Some (Inl r) \<Rightarrow> Some (Inl r)
            | Some (Inr s') \<Rightarrow> for_loop_ret (it + 1) n body s')
      else Some (Inr s))"
  by pat_completeness auto
termination
  by (relation "measure (\<lambda>(it, n, body, s). nat (n - it))") auto

declare for_loop.simps [simp del] for_loop_ret.simps [simp del]

section \<open>Element types\<close>

text \<open>
  The template parameter \<open>T\<close>: what the solver needs of it is the unary minus
  (\<open>r = -r\<close>, computed and stored in \<open>T\<close>) and the conversion to \<open>double\<close>.
\<close>

record 'a dtype =
  neg :: "'a \<Rightarrow> 'a"
  widen :: "'a \<Rightarrow> dbl"

definition T_double :: "dbl dtype" where
  "T_double = \<lparr> neg = dneg, widen = (\<lambda>x. x) \<rparr>"

text \<open>
  For \<open>bool\<close>, \<open>-r\<close> promotes \<open>r\<close> to \<open>int\<close> (0 or 1), negates, and the assignment converts
  the result back to \<open>bool\<close> (true iff nonzero).
\<close>

definition T_bool :: "bool dtype" where
  "T_bool = \<lparr> neg = (\<lambda>r. - (if r then 1 else 0 :: int) \<noteq> 0),
              widen = (\<lambda>r. Fin (if r then 1 else 0)) \<rparr>"

section \<open>The cost view: \<open>matrix2d\<close>\<close>

record 'a matrix2d =
  m_d :: "'a list"
  m_nr :: int
  m_nc :: int
  m_transpose :: bool
  m_negative :: bool
  m_subrows :: "int list option"
  m_subcols :: "int list option"

definition matrix2d :: "'a list \<Rightarrow> int \<Rightarrow> int \<Rightarrow> 'a matrix2d" where
  "matrix2d d nr nc =
     \<lparr> m_d = d, m_nr = nr, m_nc = nc, m_transpose = False, m_negative = False,
       m_subrows = None, m_subcols = None \<rparr>"

definition get :: "'a dtype \<Rightarrow> 'a matrix2d \<Rightarrow> int \<Rightarrow> int \<Rightarrow> 'a option" where
  "get T m i0 j0 = do {
     let i1 = (if m_transpose m then j0 else i0);
     let j1 = (if m_transpose m then i0 else j0);
     i \<leftarrow> (case m_subrows m of None \<Rightarrow> Some i1 | Some sr \<Rightarrow> rd sr i1);
     j \<leftarrow> (case m_subcols m of None \<Rightarrow> Some j1 | Some sc \<Rightarrow> rd sc j1);
     r \<leftarrow> rd (m_d m) (i * m_nc m + j);
     Some (if m_negative m then neg T r else r)
   }"

definition transpose_m :: "'a matrix2d \<Rightarrow> 'a matrix2d" where
  "transpose_m m = m\<lparr> m_transpose := \<not> m_transpose m \<rparr>"

definition negative :: "'a matrix2d \<Rightarrow> 'a matrix2d" where
  "negative m = m\<lparr> m_negative := \<not> m_negative m \<rparr>"

definition subscript :: "int list option \<Rightarrow> int list option \<Rightarrow> 'a matrix2d \<Rightarrow> 'a matrix2d" where
  "subscript subrows subcols m = m\<lparr> m_subrows := subrows, m_subcols := subcols \<rparr>"

section \<open>\<open>argsort_iter\<close>\<close>

text \<open>
  \<open>std::sort\<close> of the indices by their values.  \<open>std::sort\<close> leaves the order of equal
  keys open; the model takes the stable order there.
\<close>

definition argsort_iter :: "int list \<Rightarrow> int list" where
  "argsort_iter v = sort_key (\<lambda>i. v ! nat i) (map int [0..<length v])"

section \<open>The solver's vectors\<close>

record workspace =
  u :: "dbl list"
  v :: "dbl list"
  shortestPathCosts :: "dbl list"
  path :: "int list"
  col4row :: "int list"
  row4col :: "int list"
  SR :: "bool list"
  SC :: "bool list"
  remaining :: "int list"

section \<open>\<open>augmenting_path\<close>\<close>

text \<open>The body of the scan \<open>for (it = 0; it < num_remaining; it++)\<close>; the state is the
  vectors with \<open>lowest\<close> and \<open>index\<close>.\<close>

definition scan_step ::
  "'a dtype \<Rightarrow> 'a matrix2d \<Rightarrow> dbl \<Rightarrow> int \<Rightarrow> int \<Rightarrow> workspace \<times> dbl \<times> int
     \<Rightarrow> (workspace \<times> dbl \<times> int) option" where
  "scan_step T cost minVal i it s = (case s of (w, lowest, index) \<Rightarrow> do {
     j \<leftarrow> rd (remaining w) it;
     c \<leftarrow> get T cost i j;
     ui \<leftarrow> rd (u w) i;
     vj \<leftarrow> rd (v w) j;
     let r = dsub (dsub (dadd minVal (widen T c)) ui) vj;
     old \<leftarrow> rd (shortestPathCosts w) j;
     w1 \<leftarrow> (if dless r old
            then do {
              p \<leftarrow> wr (path w) j i;
              s \<leftarrow> wr (shortestPathCosts w) j r;
              Some (w\<lparr> path := p, shortestPathCosts := s \<rparr>)
            }
            else Some w);
     spj \<leftarrow> rd (shortestPathCosts w1) j;
     take \<leftarrow> (if dless spj lowest then Some True
              else if deq spj lowest
                then do { r4c \<leftarrow> rd (row4col w1) j; Some (r4c = - 1) }
                else Some False);
     Some (if take then (w1, spj, it) else (w1, lowest, index))
   })"

text \<open>One round of \<open>while (sink == -1)\<close>: \<open>Inl\<close> is the function's return (the sink, or
  \<open>-1\<close>, with \<open>minVal\<close>), \<open>Inr\<close> the state for the next round.\<close>

definition search_step ::
  "'a dtype \<Rightarrow> 'a matrix2d \<Rightarrow> dbl \<times> int \<times> int \<times> workspace
     \<Rightarrow> ((int \<times> dbl \<times> workspace) + (dbl \<times> int \<times> int \<times> workspace)) option" where
  "search_step T cost s = (case s of (minVal, i, num_remaining, w) \<Rightarrow> do {
     sr \<leftarrow> wr (SR w) i True;
     (w1, lowest, index) \<leftarrow>
        for_loop 0 num_remaining (scan_step T cost minVal i) (w\<lparr> SR := sr \<rparr>, PInf, - 1);
     if deq lowest PInf then Some (Inl (- 1, lowest, w1))
     else do {
       j \<leftarrow> rd (remaining w1) index;
       r4c \<leftarrow> rd (row4col w1) j;
       sc \<leftarrow> wr (SC w1) j True;
       l \<leftarrow> rd (remaining w1) (num_remaining - 1);
       rem \<leftarrow> wr (remaining w1) index l;
       let w2 = w1\<lparr> SC := sc, remaining := rem \<rparr>;
       Some (if r4c = - 1 then Inl (j, lowest, w2)
             else Inr (lowest, r4c, num_remaining - 1, w2))
     }
   })"

lemma search_step_decreases:
  "search_step T cost (minVal, i, n, w) = Some (Inr (minVal', i', n', w')) \<Longrightarrow> n' = n - 1 \<and> 0 < n"
  by (auto simp: search_step_def rd_def Let_def
           split: Option.bind_splits prod.splits if_splits)

function search_loop ::
  "'a dtype \<Rightarrow> 'a matrix2d \<Rightarrow> dbl \<times> int \<times> int \<times> workspace \<Rightarrow> (int \<times> dbl \<times> workspace) option" where
  "search_loop T cost s =
     (case search_step T cost s of
        None \<Rightarrow> None
      | Some (Inl r) \<Rightarrow> Some r
      | Some (Inr s') \<Rightarrow> search_loop T cost s')"
  by pat_completeness auto
termination
proof (relation "measure (\<lambda>(T, cost, minVal, i, n, w). nat n)")
  show "wf (measure (\<lambda>(T, cost, minVal, i, n, w). nat n))" by simp
next
  fix T :: "'a dtype" and cost :: "'a matrix2d" and s x2 s'
  assume "search_step T cost s = Some x2" "x2 = Inr s'"
  then show "((T, cost, s'), (T, cost, s)) \<in> measure (\<lambda>(T, cost, minVal, i, n, w). nat n)"
    by (cases s; cases s') (auto dest: search_step_decreases)
qed

declare search_loop.simps [simp del]

definition augmenting_path ::
  "'a dtype \<Rightarrow> int \<Rightarrow> 'a matrix2d \<Rightarrow> workspace \<Rightarrow> int \<Rightarrow> (int \<times> dbl \<times> workspace) option" where
  "augmenting_path T nc cost w i = do {
     rem \<leftarrow> for_loop 0 nc (\<lambda>it rem. wr rem it (nc - it - 1)) (remaining w);
     search_loop T cost
       (Fin 0, i, nc,
        w\<lparr> remaining := rem,
           SR := replicate (length (SR w)) False,
           SC := replicate (length (SC w)) False,
           shortestPathCosts := replicate (length (shortestPathCosts w)) PInf \<rparr>)
   }"

section \<open>\<open>solve\<close>\<close>

text \<open>
  The return codes other than 0 are macros of the header \<open>rectangular_lsap.h\<close>; they are
  kept symbolic, \<open>SUCCESS\<close> standing for 0.
\<close>

datatype status = SUCCESS | INFEASIBLE | INVALID | SUBSCRIPT_INVALID | DTYPE_INVALID

text \<open>The test of one element in the loop over \<open>cost[0 .. nr * nc)\<close>.\<close>

definition bad_entry :: "'a dtype \<Rightarrow> bool \<Rightarrow> 'a \<Rightarrow> bool" where
  "bad_entry T maximize c =
     (dne (widen T c) (widen T c) \<or> (deq (widen T c) MInf \<and> \<not> maximize)
      \<or> (deq (widen T c) PInf \<and> maximize))"

definition check_cost :: "'a dtype \<Rightarrow> 'a list \<Rightarrow> bool \<Rightarrow> int \<Rightarrow> unit \<Rightarrow> (status + unit) option" where
  "check_cost T cost maximize i s = do {
     c \<leftarrow> rd cost i;
     Some (if bad_entry T maximize c then Inl INVALID else Inr ())
   }"

definition check_subscript :: "int list \<Rightarrow> int \<Rightarrow> int \<Rightarrow> unit \<Rightarrow> (status + unit) option" where
  "check_subscript sub bound i s = do {
     x \<leftarrow> rd sub i;
     Some (if x < 0 \<or> x \<ge> bound then Inl SUBSCRIPT_INVALID else Inr ())
   }"

text \<open>The two loops of the dual update.\<close>

definition update_u :: "int \<Rightarrow> dbl \<Rightarrow> int \<Rightarrow> workspace \<Rightarrow> workspace option" where
  "update_u curRow minVal i w = do {
     sr \<leftarrow> rd (SR w) i;
     if sr \<and> i \<noteq> curRow then do {
       c \<leftarrow> rd (col4row w) i;
       sp \<leftarrow> rd (shortestPathCosts w) c;
       ui \<leftarrow> rd (u w) i;
       u' \<leftarrow> wr (u w) i (dadd ui (dsub minVal sp));
       Some (w\<lparr> u := u' \<rparr>)
     } else Some w
   }"

definition update_v :: "dbl \<Rightarrow> int \<Rightarrow> workspace \<Rightarrow> workspace option" where
  "update_v minVal j w = do {
     sc \<leftarrow> rd (SC w) j;
     if sc then do {
       sp \<leftarrow> rd (shortestPathCosts w) j;
       vj \<leftarrow> rd (v w) j;
       v' \<leftarrow> wr (v w) j (dsub vj (dsub minVal sp));
       Some (w\<lparr> v := v' \<rparr>)
     } else Some w
   }"

definition update_duals :: "int \<Rightarrow> int \<Rightarrow> int \<Rightarrow> dbl \<Rightarrow> workspace \<Rightarrow> workspace option" where
  "update_duals nr nc curRow minVal w = do {
     uc \<leftarrow> rd (u w) curRow;
     u' \<leftarrow> wr (u w) curRow (dadd uc minVal);
     w1 \<leftarrow> for_loop 0 nr (update_u curRow minVal) (w\<lparr> u := u' \<rparr>);
     for_loop 0 nc (update_v minVal) w1
   }"

text \<open>The loop \<open>while (1)\<close> that augments the matching along \<open>path\<close>, from the sink back to
  \<open>curRow\<close>.  Nothing in the loop itself bounds it: not returning is \<open>None\<close>.\<close>

partial_function (option) augment :: "int \<Rightarrow> int \<Rightarrow> workspace \<Rightarrow> workspace option" where
  "augment curRow j w = do {
     i \<leftarrow> rd (path w) j;
     r4c \<leftarrow> wr (row4col w) j i;
     j' \<leftarrow> rd (col4row w) i;
     c4r \<leftarrow> wr (col4row w) i j;
     if i = curRow then Some (w\<lparr> row4col := r4c, col4row := c4r \<rparr>)
     else augment curRow j' (w\<lparr> row4col := r4c, col4row := c4r \<rparr>)
   }"

declare augment.simps [code]

text \<open>The body of the main loop \<open>for (curRow = 0; curRow < nr; curRow++)\<close>.\<close>

definition main_step ::
  "'a dtype \<Rightarrow> int \<Rightarrow> int \<Rightarrow> 'a matrix2d \<Rightarrow> int \<Rightarrow> workspace \<Rightarrow> (status + workspace) option" where
  "main_step T nr nc cost curRow w = do {
     (sink, minVal, w1) \<leftarrow> augmenting_path T nc cost w curRow;
     if sink < 0 then Some (Inl INFEASIBLE)
     else do {
       w2 \<leftarrow> update_duals nr nc curRow minVal w1;
       w3 \<leftarrow> augment curRow sink w2;
       Some (Inr w3)
     }
   }"

text \<open>The vectors as \<open>solve\<close> constructs them; \<open>std::vector\<close> throws on a negative size.\<close>

definition init_workspace :: "int \<Rightarrow> int \<Rightarrow> workspace option" where
  "init_workspace nr nc =
     (if nr < 0 \<or> nc < 0 then None
      else Some \<lparr> u = replicate (nat nr) (Fin 0), v = replicate (nat nc) (Fin 0),
                  shortestPathCosts = replicate (nat nc) (Fin 0),
                  path = replicate (nat nc) (- 1),
                  col4row = replicate (nat nr) (- 1),
                  row4col = replicate (nat nc) (- 1),
                  SR = replicate (nat nr) False, SC = replicate (nat nc) False,
                  remaining = replicate (nat nc) 0 \<rparr>)"

text \<open>The remap of the output through the subscripts.\<close>

definition remap_step ::
  "int list option \<Rightarrow> int list option \<Rightarrow> int \<Rightarrow> int list \<times> int list \<Rightarrow> (int list \<times> int list) option" where
  "remap_step subrows subcols i ab = (case ab of (a, b) \<Rightarrow> do {
     a' \<leftarrow> (case subrows of None \<Rightarrow> Some a
            | Some sr \<Rightarrow> do { ai \<leftarrow> rd a i; x \<leftarrow> rd sr ai; wr a i x });
     b' \<leftarrow> (case subcols of None \<Rightarrow> Some b
            | Some sc \<Rightarrow> do { bi \<leftarrow> rd b i; x \<leftarrow> rd sc bi; wr b i x });
     Some (a', b')
   })"

text \<open>
  \<open>solve\<close>.  The buffers \<open>subrows\<close> and \<open>subcols\<close> are the lists the pointers point to, with
  their lengths \<open>n_subrows\<close> and \<open>n_subcols\<close> passed apart as in the source.  The result is
  the status with the entries written to \<open>a\<close> and \<open>b\<close> (none on an early return).
\<close>

definition solve ::
  "'a dtype \<Rightarrow> int \<Rightarrow> int \<Rightarrow> 'a list \<Rightarrow> bool \<Rightarrow> int list \<Rightarrow> int \<Rightarrow> int list \<Rightarrow> int
     \<Rightarrow> (status \<times> int list \<times> int list) option" where
  "solve T nr0 nc0 cost maximize subrows0 n_subrows subcols0 n_subcols =
    (if nr0 = 0 \<or> nc0 = 0 then Some (SUCCESS, [], [])
     else do {
       chk \<leftarrow> for_loop_ret 0 (nr0 * nc0) (check_cost T cost maximize) ();
       case chk of Inl e \<Rightarrow> Some (e, [], []) | Inr _ \<Rightarrow> do {
       chk \<leftarrow> (if n_subrows = 0 then Some (Inr ())
               else if n_subrows < 0 then Some (Inl SUBSCRIPT_INVALID)
               else for_loop_ret 0 n_subrows (check_subscript subrows0 nr0) ());
       case chk of Inl e \<Rightarrow> Some (e, [], []) | Inr _ \<Rightarrow> do {
       chk \<leftarrow> (if n_subcols = 0 then Some (Inr ())
               else if n_subcols < 0 then Some (Inl SUBSCRIPT_INVALID)
               else for_loop_ret 0 n_subcols (check_subscript subcols0 nc0) ());
       case chk of Inl e \<Rightarrow> Some (e, [], []) | Inr _ \<Rightarrow> do {
       let subrows = (if n_subrows = 0 then None else Some subrows0);
       let subcols = (if n_subcols = 0 then None else Some subcols0);
       let costmat = matrix2d cost nr0 nc0;
       let sub = (subrows \<noteq> None \<or> subcols \<noteq> None);
       let costmat = (if sub then subscript subrows subcols costmat else costmat);
       let nr1 = (if sub then n_subrows else nr0);
       let nc1 = (if sub then n_subcols else nc0);
       let transpose = (nc1 < nr1);
       let costmat = (if transpose then transpose_m costmat else costmat);
       let nr = (if transpose then nc1 else nr1);
       let nc = (if transpose then nr1 else nc1);
       let costmat = (if maximize then negative costmat else costmat);
       w0 \<leftarrow> init_workspace nr nc;
       r \<leftarrow> for_loop_ret 0 nr (main_step T nr nc costmat) w0;
       case r of Inl e \<Rightarrow> Some (e, [], []) | Inr w \<Rightarrow> do {
       let ab = (if transpose
                 then (map (\<lambda>x. col4row w ! nat x) (argsort_iter (col4row w)),
                       argsort_iter (col4row w))
                 else (map int [0..<nat nr], col4row w));
       (a, b) \<leftarrow> (if sub then for_loop 0 nr (remap_step subrows subcols) ab else Some ab);
       Some (SUCCESS, a, b)
     }}}}})"

text \<open>The entry point for \<open>double\<close> matrices.\<close>

definition solve_rectangular_linear_sum_assignment ::
  "int \<Rightarrow> int \<Rightarrow> dbl list \<Rightarrow> bool \<Rightarrow> (status \<times> int list \<times> int list) option" where
  "solve_rectangular_linear_sum_assignment nr nc input_cost maximize =
     solve T_double nr nc input_cost maximize [] 0 [] 0"


text \<open>
  The entry point with an element-type tag.  The tag selects how the untyped buffer is
  read, so the model pairs each tag with a buffer of that element type; a tag outside the
  enumeration is \<open>LSAP_OTHER\<close>.  The integer kinds are machine words (two's complement,
  LP64 widths, \<open>char\<close> signed): their unary minus wraps around, also where C++ promotes to
  \<open>int\<close> and converts back.  The three floating-point kinds share the model \<open>dbl\<close>.
\<close>

definition T_signed :: "'w::len word dtype" where
  "T_signed = \<lparr> neg = (\<lambda>r. - r), widen = (\<lambda>r. Fin (real_of_int (sint r))) \<rparr>"

definition T_unsigned :: "'w::len word dtype" where
  "T_unsigned = \<lparr> neg = (\<lambda>r. - r), widen = (\<lambda>r. Fin (real_of_int (uint r))) \<rparr>"

datatype cost_buffer =
    LSAP_BOOL "bool list"
  | LSAP_BYTE "8 word list"
  | LSAP_UBYTE "8 word list"
  | LSAP_SHORT "16 word list"
  | LSAP_USHORT "16 word list"
  | LSAP_INT "32 word list"
  | LSAP_UINT "32 word list"
  | LSAP_LONG "64 word list"
  | LSAP_ULONG "64 word list"
  | LSAP_LONGLONG "64 word list"
  | LSAP_ULONGLONG "64 word list"
  | LSAP_FLOAT "dbl list"
  | LSAP_DOUBLE "dbl list"
  | LSAP_LONGDOUBLE "dbl list"
  | LSAP_OTHER

fun solve_rectangular_linear_sum_assignment_dtype ::
  "int \<Rightarrow> int \<Rightarrow> cost_buffer \<Rightarrow> bool \<Rightarrow> int list \<Rightarrow> int \<Rightarrow> int list \<Rightarrow> int
     \<Rightarrow> (status \<times> int list \<times> int list) option" where
  "solve_rectangular_linear_sum_assignment_dtype nr nc (LSAP_BOOL c) mx sr nsr sc nsc =
     solve T_bool nr nc c mx sr nsr sc nsc"
| "solve_rectangular_linear_sum_assignment_dtype nr nc (LSAP_BYTE c) mx sr nsr sc nsc =
     solve T_signed nr nc c mx sr nsr sc nsc"
| "solve_rectangular_linear_sum_assignment_dtype nr nc (LSAP_UBYTE c) mx sr nsr sc nsc =
     solve T_unsigned nr nc c mx sr nsr sc nsc"
| "solve_rectangular_linear_sum_assignment_dtype nr nc (LSAP_SHORT c) mx sr nsr sc nsc =
     solve T_signed nr nc c mx sr nsr sc nsc"
| "solve_rectangular_linear_sum_assignment_dtype nr nc (LSAP_USHORT c) mx sr nsr sc nsc =
     solve T_unsigned nr nc c mx sr nsr sc nsc"
| "solve_rectangular_linear_sum_assignment_dtype nr nc (LSAP_INT c) mx sr nsr sc nsc =
     solve T_signed nr nc c mx sr nsr sc nsc"
| "solve_rectangular_linear_sum_assignment_dtype nr nc (LSAP_UINT c) mx sr nsr sc nsc =
     solve T_unsigned nr nc c mx sr nsr sc nsc"
| "solve_rectangular_linear_sum_assignment_dtype nr nc (LSAP_LONG c) mx sr nsr sc nsc =
     solve T_signed nr nc c mx sr nsr sc nsc"
| "solve_rectangular_linear_sum_assignment_dtype nr nc (LSAP_ULONG c) mx sr nsr sc nsc =
     solve T_unsigned nr nc c mx sr nsr sc nsc"
| "solve_rectangular_linear_sum_assignment_dtype nr nc (LSAP_LONGLONG c) mx sr nsr sc nsc =
     solve T_signed nr nc c mx sr nsr sc nsc"
| "solve_rectangular_linear_sum_assignment_dtype nr nc (LSAP_ULONGLONG c) mx sr nsr sc nsc =
     solve T_unsigned nr nc c mx sr nsr sc nsc"
| "solve_rectangular_linear_sum_assignment_dtype nr nc (LSAP_FLOAT c) mx sr nsr sc nsc =
     solve T_double nr nc c mx sr nsr sc nsc"
| "solve_rectangular_linear_sum_assignment_dtype nr nc (LSAP_DOUBLE c) mx sr nsr sc nsc =
     solve T_double nr nc c mx sr nsr sc nsc"
| "solve_rectangular_linear_sum_assignment_dtype nr nc (LSAP_LONGDOUBLE c) mx sr nsr sc nsc =
     solve T_double nr nc c mx sr nsr sc nsc"
| "solve_rectangular_linear_sum_assignment_dtype nr nc LSAP_OTHER mx sr nsr sc nsc =
     Some (DTYPE_INVALID, [], [])"

section \<open>Reading and writing vectors\<close>

lemma rd_Some: "rd xs i = Some x \<longleftrightarrow> 0 \<le> i \<and> nat i < length xs \<and> x = xs ! nat i"
  by (auto simp: rd_def)

lemma rd_None: "rd xs i = None \<longleftrightarrow> \<not> (0 \<le> i \<and> nat i < length xs)"
  by (auto simp: rd_def)

lemma wr_Some: "wr xs i x = Some ys \<longleftrightarrow> 0 \<le> i \<and> nat i < length xs \<and> ys = xs[nat i := x]"
  by (auto simp: wr_def)

lemma wr_None: "wr xs i x = None \<longleftrightarrow> \<not> (0 \<le> i \<and> nat i < length xs)"
  by (auto simp: wr_def)

lemma rd_int: "k < length xs \<Longrightarrow> rd xs (int k) = Some (xs ! k)"
  by (simp add: rd_def)

lemma wr_int: "k < length xs \<Longrightarrow> wr xs (int k) x = Some (xs[k := x])"
  by (simp add: wr_def)

section \<open>Rules for the loops\<close>

lemma for_loop_done: "n \<le> lo \<Longrightarrow> for_loop lo n body s = Some s"
  by (simp add: for_loop.simps)

lemma for_loop_step:
  "lo < n \<Longrightarrow> for_loop lo n body s = Option.bind (body lo s) (for_loop (lo + 1) n body)"
  by (subst for_loop.simps) (simp split: option.splits)

lemma for_loop_ret_done: "n \<le> lo \<Longrightarrow> for_loop_ret lo n body s = Some (Inr s)"
  by (simp add: for_loop_ret.simps)

lemma for_loop_ret_step:
  "lo < n \<Longrightarrow> for_loop_ret lo n body s =
     (case body lo s of None \<Rightarrow> None | Some (Inl r) \<Rightarrow> Some (Inl r)
      | Some (Inr s') \<Rightarrow> for_loop_ret (lo + 1) n body s')"
  by (subst for_loop_ret.simps) simp

text \<open>An invariant that the body keeps holds when the loop is left.\<close>

lemma for_loop_rule:
  assumes "for_loop lo n body s = Some s'" and "I lo s" and "lo \<le> n"
    and "\<And>k t t'. lo \<le> k \<Longrightarrow> k < n \<Longrightarrow> I k t \<Longrightarrow> body k t = Some t' \<Longrightarrow> I (k + 1) t'"
  shows "I n s'"
  using assms
proof (induction lo n body s rule: for_loop.induct)
  case (1 it n body s)
  show ?case
  proof (cases "it < n")
    case False
    with 1 show ?thesis by (simp add: for_loop_done)
  next
    case True
    with 1(2) obtain t where t: "body it s = Some t" "for_loop (it + 1) n body t = Some s'"
      by (auto simp: for_loop_step split: Option.bind_splits)
    have "I (it + 1) t" using 1(5)[of it s t] True 1(3) t by simp
    then show ?thesis
      using 1(1)[OF True t(1) t(2)] True 1(5) by simp
  qed
qed

text \<open>A body that succeeds under the invariant makes the loop succeed.\<close>

lemma for_loop_total:
  assumes "I lo s" and "lo \<le> n"
    and "\<And>k t. lo \<le> k \<Longrightarrow> k < n \<Longrightarrow> I k t \<Longrightarrow> \<exists>t'. body k t = Some t' \<and> I (k + 1) t'"
  shows "\<exists>s'. for_loop lo n body s = Some s' \<and> I n s'"
  using assms
proof (induction lo n body s rule: for_loop.induct)
  case (1 it n body s)
  show ?case
  proof (cases "it < n")
    case False
    with 1 show ?thesis by (simp add: for_loop_done)
  next
    case True
    from 1(4)[of it s] True 1(2) obtain t where t: "body it s = Some t" "I (it + 1) t"
      by auto
    have "\<exists>s'. for_loop (it + 1) n body t = Some s' \<and> I n s'"
      using 1(1)[OF True t(1) t(2)] True 1(4) by simp
    then show ?thesis using True t(1) by (simp add: for_loop_step)
  qed
qed

lemma for_loop_ret_rule:
  assumes "for_loop_ret lo n body s = Some r" and "I lo s" and "lo \<le> n"
    and "\<And>k t t'. lo \<le> k \<Longrightarrow> k < n \<Longrightarrow> I k t \<Longrightarrow> body k t = Some (Inr t') \<Longrightarrow> I (k + 1) t'"
  shows "(case r of Inr s' \<Rightarrow> I n s'
          | Inl e \<Rightarrow> \<exists>k t. lo \<le> k \<and> k < n \<and> I k t \<and> body k t = Some (Inl e))"
  using assms
proof (induction lo n body s rule: for_loop_ret.induct)
  case (1 it n body s)
  note run = "1.prems"(1) and inv = "1.prems"(2) and le = "1.prems"(3) and step = "1.prems"(4)
  show ?case
  proof (cases "it < n")
    case False
    with run inv le show ?thesis by (auto simp: for_loop_ret_done)
  next
    case True
    show ?thesis
    proof (cases "body it s")
      case None
      with run True show ?thesis by (simp add: for_loop_ret_step)
    next
      case (Some x)
      show ?thesis
      proof (cases x)
        case (Inl e)
        with Some run True have "r = Inl e" by (simp add: for_loop_ret_step)
        with Some Inl True inv show ?thesis by auto
      next
        case (Inr t)
        with Some run True have t: "for_loop_ret (it + 1) n body t = Some r"
          by (simp add: for_loop_ret_step)
        have "I (it + 1) t" using step[of it s t] True inv Some Inr by simp
        from "1.IH"[OF True Some Inr t this] True step
        have "case r of Inl e \<Rightarrow> \<exists>k t. it + 1 \<le> k \<and> k < n \<and> I k t \<and> body k t = Some (Inl e)
              | Inr s' \<Rightarrow> I n s'"
          by simp
        then show ?thesis
        proof (cases r)
          case (Inl e)
          with \<open>case r of Inl e \<Rightarrow> _ | Inr s' \<Rightarrow> _\<close>
          obtain k t where "it + 1 \<le> k" "k < n" "I k t" "body k t = Some (Inl e)" by auto
          then have "it \<le> k \<and> k < n \<and> I k t \<and> body k t = Some (Inl e)" by simp
          with Inl show ?thesis by auto
        qed simp
      qed
    qed
  qed
qed

lemmas eval_defs =
  solve_rectangular_linear_sum_assignment_def solve_def for_loop_ret.simps for_loop.simps
  check_cost_def check_subscript_def rd_def wr_def bad_entry_def T_double_def T_bool_def
  deq_def dne_def init_workspace_def matrix2d_def subscript_def transpose_m_def negative_def
  main_step_def augmenting_path_def search_loop.simps search_step_def scan_step_def get_def
  dsub_def update_duals_def update_u_def update_v_def augment.simps remap_step_def
  argsort_iter_def Let_def eval_nat_numeral upt_rec

section \<open>Lengths and frames\<close>

definition lens :: "nat \<Rightarrow> nat \<Rightarrow> workspace \<Rightarrow> bool" where
  "lens nr nc w \<longleftrightarrow>
     length (u w) = nr \<and> length (v w) = nc \<and> length (shortestPathCosts w) = nc \<and>
     length (path w) = nc \<and> length (col4row w) = nr \<and> length (row4col w) = nc \<and>
     length (SR w) = nr \<and> length (SC w) = nc \<and> length (remaining w) = nc"

text \<open>What a search leaves alone: the duals and the matching.\<close>

definition same_duals_matching :: "workspace \<Rightarrow> workspace \<Rightarrow> bool" where
  "same_duals_matching w w' \<longleftrightarrow>
     u w' = u w \<and> v w' = v w \<and> col4row w' = col4row w \<and> row4col w' = row4col w"

lemma scan_step_frame:
  assumes "scan_step T cost m i it (w, lo, ix) = Some (w', lo', ix')"
  shows "u w' = u w \<and> v w' = v w \<and> col4row w' = col4row w \<and> row4col w' = row4col w \<and>
         SR w' = SR w \<and> SC w' = SC w \<and> remaining w' = remaining w \<and>
         length (path w') = length (path w) \<and>
         length (shortestPathCosts w') = length (shortestPathCosts w)"
  using assms
  by (auto simp: scan_step_def Let_def wr_Some split: Option.bind_splits if_splits)

lemma scan_loop_frame:
  assumes "for_loop lo n (scan_step T cost m i) (w, l, ix) = Some (w', l', ix')" and "lo \<le> n"
  shows "u w' = u w \<and> v w' = v w \<and> col4row w' = col4row w \<and> row4col w' = row4col w \<and>
         SR w' = SR w \<and> SC w' = SC w \<and> remaining w' = remaining w \<and>
         length (path w') = length (path w) \<and>
         length (shortestPathCosts w') = length (shortestPathCosts w)"
proof -
  let ?I = "\<lambda>(k::int) (s :: workspace \<times> dbl \<times> int). case s of (x, _, _) \<Rightarrow>
         u x = u w \<and> v x = v w \<and> col4row x = col4row w \<and> row4col x = row4col w \<and>
         SR x = SR w \<and> SC x = SC w \<and> remaining x = remaining w \<and>
         length (path x) = length (path w) \<and>
         length (shortestPathCosts x) = length (shortestPathCosts w)"
  have "?I n (w', l', ix')"
  proof (rule for_loop_rule[OF assms(1) _ assms(2), where I = ?I])
    show "?I lo (w, l, ix)" by simp
  next
    fix k t t'
    assume "?I k t" "scan_step T cost m i k t = Some t'"
    then show "?I (k + 1) t'"
      by (cases t; cases t') (auto dest!: scan_step_frame)
  qed
  then show ?thesis by simp
qed

lemma search_step_frame:
  assumes "search_step T cost (m, i, n, w) = Some r"
  shows "case r of Inl (sink, m', w') \<Rightarrow> same_duals_matching w w' \<and> (\<forall>a b. lens a b w \<longrightarrow> lens a b w')
         | Inr (m', i', n', w') \<Rightarrow> same_duals_matching w w' \<and> (\<forall>a b. lens a b w \<longrightarrow> lens a b w')"
proof -
  from assms obtain sr w1 lowest index where
    sr: "wr (SR w) i True = Some sr" and
    loop: "for_loop 0 n (scan_step T cost m i) (w\<lparr>SR := sr\<rparr>, PInf, - 1) = Some (w1, lowest, index)"
    by (auto simp: search_step_def split: Option.bind_splits prod.splits)
  have n: "0 \<le> n \<or> n < 0" by auto
  have fr: "u w1 = u w \<and> v w1 = v w \<and> col4row w1 = col4row w \<and> row4col w1 = row4col w \<and>
         SR w1 = sr \<and> SC w1 = SC w \<and> remaining w1 = remaining w \<and>
         length (path w1) = length (path w) \<and>
         length (shortestPathCosts w1) = length (shortestPathCosts w)"
  proof (cases "0 \<le> n")
    case True
    from scan_loop_frame[OF loop True] show ?thesis by simp
  next
    case False
    with loop show ?thesis by (auto simp: for_loop_done)
  qed
  from sr have lsr: "length sr = length (SR w)" by (auto simp: wr_Some)
  from assms sr loop fr lsr show ?thesis
    by (auto simp: search_step_def same_duals_matching_def lens_def Let_def wr_Some
             split: Option.bind_splits if_splits)
qed

lemma search_loop_frame:
  assumes "search_loop T cost s = Some (sink, m', w')"
  shows "same_duals_matching (snd (snd (snd s))) w' \<and>
         (\<forall>a b. lens a b (snd (snd (snd s))) \<longrightarrow> lens a b w')"
  using assms
proof (induction T cost s rule: search_loop.induct)
  case (1 T cost s)
  obtain m i n w where s: "s = (m, i, n, w)" by (cases s)
  from "1.prems" obtain r where r: "search_step T cost s = Some r"
    by (subst (asm) search_loop.simps) (auto split: option.splits)
  show ?case
  proof (cases r)
    case (Inl x)
    with r "1.prems" have "x = (sink, m', w')"
      by (subst (asm) search_loop.simps) simp
    with search_step_frame[OF r[unfolded s]] Inl s show ?thesis by simp
  next
    case (Inr s')
    with r "1.prems" have run: "search_loop T cost s' = Some (sink, m', w')"
      by (subst (asm) search_loop.simps) simp
    obtain m1 i1 n1 w1 where s': "s' = (m1, i1, n1, w1)" by (cases s')
    from "1.IH"[OF r Inr run] s'
    have a: "same_duals_matching w1 w' \<and> (\<forall>a b. lens a b w1 \<longrightarrow> lens a b w')" by simp
    from search_step_frame[OF r[unfolded s]] Inr s'
    have b: "same_duals_matching w w1 \<and> (\<forall>a b. lens a b w \<longrightarrow> lens a b w1)" by simp
    from a b s show ?thesis by (auto simp: same_duals_matching_def)
  qed
qed

lemma fill_remaining_length:
  assumes "for_loop lo n (\<lambda>it rem. wr rem it (n - it - 1)) r = Some r'"
  shows "length r' = length r"
proof (cases "lo \<le> n")
  case True
  show ?thesis
    by (rule for_loop_rule[OF assms _ True, where I = "\<lambda>k x. length x = length r"])
       (auto simp: wr_Some)
next
  case False
  with assms show ?thesis by (simp add: for_loop_done)
qed

lemma augmenting_path_frame:
  assumes "augmenting_path T nc cost w i = Some (sink, m, w')"
  shows "same_duals_matching w w' \<and> (\<forall>a b. lens a b w \<longrightarrow> lens a b w')"
proof -
  from assms obtain rem where
    rem: "for_loop 0 nc (\<lambda>it rem. wr rem it (nc - it - 1)) (remaining w) = Some rem" and
    run: "search_loop T cost (Fin 0, i, nc,
        w\<lparr> remaining := rem,
           SR := replicate (length (SR w)) False,
           SC := replicate (length (SC w)) False,
           shortestPathCosts := replicate (length (shortestPathCosts w)) PInf \<rparr>) = Some (sink, m, w')"
    by (auto simp: augmenting_path_def split: Option.bind_splits)
  from fill_remaining_length[OF rem] search_loop_frame[OF run] show ?thesis
    by (auto simp: same_duals_matching_def lens_def)
qed

lemma update_u_frame:
  assumes "update_u c m i w = Some w'"
  shows "\<exists>U. w' = w\<lparr>u := U\<rparr> \<and> length U = length (u w)"
  using assms
  by (auto simp: update_u_def wr_Some split: Option.bind_splits if_splits intro: exI[of _ "u w"])

lemma update_v_frame:
  assumes "update_v m j w = Some w'"
  shows "\<exists>V. w' = w\<lparr>v := V\<rparr> \<and> length V = length (v w)"
  using assms
  by (auto simp: update_v_def wr_Some split: Option.bind_splits if_splits intro: exI[of _ "v w"])

lemma update_u_loop_frame:
  assumes "for_loop lo n (update_u c m) w = Some w'"
  shows "\<exists>U. w' = w\<lparr>u := U\<rparr> \<and> length U = length (u w)"
proof (cases "lo \<le> n")
  case True
  show ?thesis
  proof (rule for_loop_rule[OF assms _ True,
        where I = "\<lambda>k x. \<exists>U. x = w\<lparr>u := U\<rparr> \<and> length U = length (u w)"])
    show "\<exists>U. w = w\<lparr>u := U\<rparr> \<and> length U = length (u w)"
      by (rule exI[of _ "u w"]) simp
  next
    fix k t t'
    assume "\<exists>U. t = w\<lparr>u := U\<rparr> \<and> length U = length (u w)" "update_u c m k t = Some t'"
    then show "\<exists>U. t' = w\<lparr>u := U\<rparr> \<and> length U = length (u w)"
      by (auto dest!: update_u_frame)
  qed
next
  case False
  with assms have "w' = w" by (simp add: for_loop_done)
  then show ?thesis by (intro exI[of _ "u w"]) simp
qed

lemma update_v_loop_frame:
  assumes "for_loop lo n (update_v m) w = Some w'"
  shows "\<exists>V. w' = w\<lparr>v := V\<rparr> \<and> length V = length (v w)"
proof (cases "lo \<le> n")
  case True
  show ?thesis
  proof (rule for_loop_rule[OF assms _ True,
        where I = "\<lambda>k x. \<exists>V. x = w\<lparr>v := V\<rparr> \<and> length V = length (v w)"])
    show "\<exists>V. w = w\<lparr>v := V\<rparr> \<and> length V = length (v w)"
      by (rule exI[of _ "v w"]) simp
  next
    fix k t t'
    assume "\<exists>V. t = w\<lparr>v := V\<rparr> \<and> length V = length (v w)" "update_v m k t = Some t'"
    then show "\<exists>V. t' = w\<lparr>v := V\<rparr> \<and> length V = length (v w)"
      by (auto dest!: update_v_frame)
  qed
next
  case False
  with assms have "w' = w" by (simp add: for_loop_done)
  then show ?thesis by (intro exI[of _ "v w"]) simp
qed

lemma update_duals_frame:
  assumes "update_duals nr nc c m w = Some w'"
  shows "\<exists>U V. w' = w\<lparr>u := U, v := V\<rparr> \<and> length U = length (u w) \<and> length V = length (v w)"
proof -
  from assms obtain uc U0 w1 where
    "wr (u w) c (dadd uc m) = Some U0" and
    a: "for_loop 0 nr (update_u c m) (w\<lparr>u := U0\<rparr>) = Some w1" and
    b: "for_loop 0 nc (update_v m) w1 = Some w'"
    by (auto simp: update_duals_def split: Option.bind_splits)
  then have l0: "length U0 = length (u w)" by (auto simp: wr_Some)
  from update_u_loop_frame[OF a] obtain U where U: "w1 = w\<lparr>u := U\<rparr>" "length U = length (u w)"
    using l0 by auto
  from update_v_loop_frame[OF b] obtain V where "w' = w1\<lparr>v := V\<rparr>" "length V = length (v w1)"
    by auto
  with U show ?thesis by auto
qed

lemma augment_frame:
  assumes "augment c j w = Some w'"
  shows "\<exists>R C. w' = w\<lparr>row4col := R, col4row := C\<rparr> \<and> length R = length (row4col w) \<and>
               length C = length (col4row w)"
proof (rule augment.raw_induct[OF _ assms])
  fix aug :: "int \<Rightarrow> int \<Rightarrow> workspace \<Rightarrow> workspace option" and c j w w'
  assume IH: "\<And>c j w w'. aug c j w = Some w' \<Longrightarrow>
     \<exists>R C. w' = w\<lparr>row4col := R, col4row := C\<rparr> \<and> length R = length (row4col w) \<and>
               length C = length (col4row w)"
  assume prem: "rd (path w) j \<bind> (\<lambda>i. wr (row4col w) j i \<bind> (\<lambda>r4c. rd (col4row w) i \<bind>
      (\<lambda>j'. wr (col4row w) i j \<bind> (\<lambda>c4r.
        if i = c then Some (w\<lparr>row4col := r4c, col4row := c4r\<rparr>)
        else aug c j' (w\<lparr>row4col := r4c, col4row := c4r\<rparr>))))) = Some w'"
  then obtain i r4c j' c4r where
    st: "rd (path w) j = Some i" "wr (row4col w) j i = Some r4c"
        "rd (col4row w) i = Some j'" "wr (col4row w) i j = Some c4r" and
    res: "if i = c then w' = w\<lparr>row4col := r4c, col4row := c4r\<rparr>
          else aug c j' (w\<lparr>row4col := r4c, col4row := c4r\<rparr>) = Some w'"
    by (auto split: Option.bind_splits if_splits)
  from st have l: "length r4c = length (row4col w)" "length c4r = length (col4row w)"
    by (auto simp: wr_Some)
  show "\<exists>R C. w' = w\<lparr>row4col := R, col4row := C\<rparr> \<and> length R = length (row4col w) \<and>
               length C = length (col4row w)"
  proof (cases "i = c")
    case True
    with res l show ?thesis by auto
  next
    case False
    with res have "aug c j' (w\<lparr>row4col := r4c, col4row := c4r\<rparr>) = Some w'" by simp
    from IH[OF this] l show ?thesis by auto
  qed
qed

lemma main_step_lens:
  assumes "main_step T nr nc cost c w = Some (Inr w')" and "lens a b w"
  shows "lens a b w'"
proof -
  from assms(1) obtain sink m w1 w2 where
    ap: "augmenting_path T nc cost w c = Some (sink, m, w1)" and
    ud: "update_duals nr nc c m w1 = Some w2" and
    au: "augment c sink w2 = Some w'"
    by (auto simp: main_step_def split: Option.bind_splits if_splits prod.splits)
  from augmenting_path_frame[OF ap] assms(2) have "lens a b w1" by simp
  with update_duals_frame[OF ud] have "lens a b w2" by (auto simp: lens_def)
  with augment_frame[OF au] show ?thesis by (auto simp: lens_def)
qed

lemma main_step_status:
  "main_step T nr nc cost c w = Some (Inl e) \<Longrightarrow> e = INFEASIBLE"
  by (auto simp: main_step_def split: Option.bind_splits if_splits prod.splits)

section \<open>The view is read through \<open>get\<close> only\<close>

lemma scan_step_get_eq: "get T c1 = get T c2 \<Longrightarrow> scan_step T c1 = scan_step T c2"
  by (simp add: scan_step_def fun_eq_iff)

lemma search_step_get_eq: "get T c1 = get T c2 \<Longrightarrow> search_step T c1 = search_step T c2"
  using scan_step_get_eq[of T c1 c2] by (intro ext) (simp add: search_step_def)

lemma search_loop_get_eq:
  assumes "get T c1 = get T c2"
  shows "search_loop T c1 s = search_loop T c2 s"
  using assms
proof (induction T c1 s rule: search_loop.induct)
  case (1 T c1 s)
  have "search_loop T c1 s =
     (case search_step T c1 s of None \<Rightarrow> None | Some (Inl r) \<Rightarrow> Some r
      | Some (Inr s') \<Rightarrow> search_loop T c1 s')"
    by (rule search_loop.simps)
  also have "\<dots> = (case search_step T c1 s of None \<Rightarrow> None | Some (Inl r) \<Rightarrow> Some r
      | Some (Inr s') \<Rightarrow> search_loop T c2 s')"
    using "1.IH" "1.prems" by (auto split: option.splits sum.splits)
  also have "\<dots> = search_loop T c2 s"
    by (subst (2) search_loop.simps) (simp add: search_step_get_eq[OF "1.prems"])
  finally show ?case .
qed

lemma main_step_get_eq:
  assumes "get T c1 = get T c2"
  shows "main_step T nr nc c1 = main_step T nr nc c2"
  using search_loop_get_eq[OF assms]
  by (simp add: main_step_def augmenting_path_def fun_eq_iff)

subsection \<open>Boolean matrices\<close>

lemma get_negative_bool: "get T_bool (negative m) = get T_bool m"
  by (auto simp: get_def negative_def T_bool_def fun_eq_iff Let_def split: Option.bind_splits)

lemma bad_entry_bool: "bad_entry T_bool mx c = False"
  by (simp add: bad_entry_def T_bool_def deq_def dne_def)

lemma check_cost_bool: "check_cost T_bool cost mx = check_cost T_bool cost False"
  by (simp add: check_cost_def fun_eq_iff bad_entry_bool)

lemma solve_bool_maximize: "solve T_bool nr nc c True sr nsr sc nsc = solve T_bool nr nc c False sr nsr sc nsc"
  unfolding solve_def Let_def
  by (simp add: check_cost_bool[of c True] main_step_get_eq[OF get_negative_bool])

section \<open>Input validation\<close>

lemma check_cost_loop:
  assumes "0 \<le> lo" and "nat n \<le> length cost"
  shows "for_loop_ret lo n (check_cost T cost mx) () =
           Some (if \<exists>k. lo \<le> k \<and> k < n \<and> bad_entry T mx (cost ! nat k) then Inl INVALID else Inr ())"
  using assms
proof (induction lo n "check_cost T cost mx" "()" rule: for_loop_ret.induct)
  case (1 it n)
  show ?case
  proof (cases "it < n")
    case False
    then show ?thesis by (auto simp: for_loop_ret_done)
  next
    case True
    with "1.prems" have rdit: "rd cost it = Some (cost ! nat it)" by (auto simp: rd_def)
    show ?thesis
    proof (cases "bad_entry T mx (cost ! nat it)")
      case bad: True
      with True "1.prems" have "\<exists>k. it \<le> k \<and> k < n \<and> bad_entry T mx (cost ! nat k)"
        by (intro exI[of _ it]) simp
      with True bad rdit show ?thesis by (simp add: for_loop_ret_step check_cost_def)
    next
      case ok: False
      have step: "check_cost T cost mx it () = Some (Inr ())"
        using ok rdit by (simp add: check_cost_def)
      have "(\<exists>k. it \<le> k \<and> k < n \<and> bad_entry T mx (cost ! nat k)) \<longleftrightarrow>
            (\<exists>k. it + 1 \<le> k \<and> k < n \<and> bad_entry T mx (cost ! nat k))"
      proof
        assume "\<exists>k. it \<le> k \<and> k < n \<and> bad_entry T mx (cost ! nat k)"
        then obtain k where k: "it \<le> k" "k < n" "bad_entry T mx (cost ! nat k)" by auto
        with ok have "k \<noteq> it" by auto
        with k show "\<exists>k. it + 1 \<le> k \<and> k < n \<and> bad_entry T mx (cost ! nat k)"
          by (intro exI[of _ k]) simp
      next
        assume "\<exists>k. it + 1 \<le> k \<and> k < n \<and> bad_entry T mx (cost ! nat k)"
        then obtain k where "it + 1 \<le> k" "k < n" "bad_entry T mx (cost ! nat k)" by auto
        then have "it \<le> k \<and> k < n \<and> bad_entry T mx (cost ! nat k)" by simp
        then show "\<exists>k. it \<le> k \<and> k < n \<and> bad_entry T mx (cost ! nat k)" by blast
      qed
      moreover have "for_loop_ret (it + 1) n (check_cost T cost mx) () =
           Some (if \<exists>k. it + 1 \<le> k \<and> k < n \<and> bad_entry T mx (cost ! nat k) then Inl INVALID else Inr ())"
        using "1.hyps"[OF True step refl] "1.prems" by simp
      ultimately show ?thesis using True step by (simp add: for_loop_ret_step)
    qed
  qed
qed

lemma bad_entry_iff:
  "bad_entry T mx c \<longleftrightarrow>
     widen T c = NaN \<or> (widen T c = MInf \<and> \<not> mx) \<or> (widen T c = PInf \<and> mx)"
  by (auto simp: bad_entry_def dne_def deq_def)

lemma check_cost_whole:
  assumes "length cost = nat n"
  shows "for_loop_ret 0 n (check_cost T cost mx) () =
           Some (if \<exists>c \<in> set cost. bad_entry T mx c then Inl INVALID else Inr ())"
proof -
  have "(\<exists>k. 0 \<le> k \<and> k < n \<and> bad_entry T mx (cost ! nat k)) \<longleftrightarrow> (\<exists>c \<in> set cost. bad_entry T mx c)"
  proof
    assume "\<exists>k. 0 \<le> k \<and> k < n \<and> bad_entry T mx (cost ! nat k)"
    then obtain k where "0 \<le> k" "k < n" "bad_entry T mx (cost ! nat k)" by auto
    moreover from this assms have "cost ! nat k \<in> set cost" by (intro nth_mem) simp
    ultimately show "\<exists>c \<in> set cost. bad_entry T mx c" by auto
  next
    assume "\<exists>c \<in> set cost. bad_entry T mx c"
    then obtain k where "k < length cost" "bad_entry T mx (cost ! k)"
      by (auto simp: in_set_conv_nth)
    with assms show "\<exists>k. 0 \<le> k \<and> k < n \<and> bad_entry T mx (cost ! nat k)"
      by (intro exI[of _ "int k"]) auto
  qed
  with check_cost_loop[of 0 n cost T mx] assms show ?thesis by simp
qed

lemma check_subscript_status:
  assumes "for_loop_ret lo n (check_subscript sub bound) () = Some (Inl e)"
  shows "e = SUBSCRIPT_INVALID"
proof (cases "lo \<le> n")
  case True
  from for_loop_ret_rule[OF assms _ True, where I = "\<lambda>_ _. True"]
  obtain k t where "check_subscript sub bound k t = Some (Inl e)" by auto
  then show ?thesis by (auto simp: check_subscript_def split: Option.bind_splits if_splits)
next
  case False
  with assms show ?thesis by (simp add: for_loop_ret_done)
qed

lemma main_loop_status:
  assumes "for_loop_ret lo n (main_step T nr nc cost) w = Some (Inl e)"
  shows "e = INFEASIBLE"
proof (cases "lo \<le> n")
  case True
  from for_loop_ret_rule[OF assms _ True, where I = "\<lambda>_ _. True"]
  obtain k t where "main_step T nr nc cost k t = Some (Inl e)" by auto
  then show ?thesis by (rule main_step_status)
next
  case False
  with assms show ?thesis by (simp add: for_loop_ret_done)
qed

lemma solve_invalid_only_from_check:
  assumes "solve T nr nc cost mx sr nsr sc nsc = Some (INVALID, a, b)"
  shows "for_loop_ret 0 (nr * nc) (check_cost T cost mx) () = Some (Inl INVALID)"
proof -
  from assms have nz: "\<not> (nr = 0 \<or> nc = 0)" by (auto simp: solve_def)
  from assms nz obtain chk where chk: "for_loop_ret 0 (nr * nc) (check_cost T cost mx) () = Some chk"
    by (auto simp: solve_def split: Option.bind_splits)
  show ?thesis
  proof (cases chk)
    case (Inl e)
    with assms nz chk show ?thesis by (simp add: solve_def)
  next
    case (Inr x)
    with assms nz chk have False
      by (auto simp: solve_def Let_def split: Option.bind_splits sum.splits if_splits prod.splits
               dest: check_subscript_status main_loop_status)
    then show ?thesis ..
  qed
qed

text \<open>
  C8.  For \<open>nr > 0\<close> and \<open>nc > 0\<close> and a buffer of \<open>nr * nc\<close> elements, \<open>solve\<close> returns
  \<open>INVALID\<close> exactly when some element of the whole buffer is NaN, or is \<open>-\<infinity>\<close> while
  minimising, or is \<open>+\<infinity>\<close> while maximising; the subscript arguments play no part, so
  the status is \<open>INVALID\<close> also when a subscript is out of bounds.
\<close>

theorem solve_invalid_iff:
  assumes "0 < nr" and "0 < nc" and "length cost = nat (nr * nc)"
  shows "(\<exists>a b. solve T nr nc cost mx sr nsr sc nsc = Some (INVALID, a, b)) \<longleftrightarrow>
         (\<exists>c \<in> set cost. widen T c = NaN \<or> (widen T c = MInf \<and> \<not> mx) \<or> (widen T c = PInf \<and> mx))"
proof
  assume "\<exists>a b. solve T nr nc cost mx sr nsr sc nsc = Some (INVALID, a, b)"
  then obtain a b where "solve T nr nc cost mx sr nsr sc nsc = Some (INVALID, a, b)" by auto
  from solve_invalid_only_from_check[OF this] check_cost_whole[OF assms(3), of T mx]
  have "\<exists>c \<in> set cost. bad_entry T mx c" by (auto split: if_splits)
  then show "\<exists>c \<in> set cost. widen T c = NaN \<or> (widen T c = MInf \<and> \<not> mx) \<or> (widen T c = PInf \<and> mx)"
    by (simp add: bad_entry_iff)
next
  assume "\<exists>c \<in> set cost. widen T c = NaN \<or> (widen T c = MInf \<and> \<not> mx) \<or> (widen T c = PInf \<and> mx)"
  then have "\<exists>c \<in> set cost. bad_entry T mx c" by (simp add: bad_entry_iff)
  with check_cost_whole[OF assms(3), of T mx]
  have "for_loop_ret 0 (nr * nc) (check_cost T cost mx) () = Some (Inl INVALID)" by simp
  with assms(1,2) have "solve T nr nc cost mx sr nsr sc nsc = Some (INVALID, [], [])"
    by (simp add: solve_def)
  then show "\<exists>a b. solve T nr nc cost mx sr nsr sc nsc = Some (INVALID, a, b)" by blast
qed

theorem solve_invalid_iff_witness:
  "(\<exists>a b. solve T_double 1 2 [Fin 1, NaN] False [5] 1 [] 0 = Some (INVALID, a, b)) \<and>
   (0::int) < 1 \<and> (0::int) < 2 \<and> length [Fin 1, NaN] = nat (1 * 2) \<and> widen T_double NaN = NaN"
  using solve_invalid_iff[of 1 2 "[Fin 1, NaN]" T_double False "[5]" 1 "[]" 0]
  by (simp add: T_double_def)

text \<open>
  C10.  For a boolean matrix, the entry point with the tag \<open>LSAP_BOOL\<close> returns with
  \<open>maximize = true\<close> what it returns with \<open>maximize = false\<close>: the same status and the same
  pairs.
\<close>

theorem solve_dtype_bool_maximize:
  "solve_rectangular_linear_sum_assignment_dtype nr nc (LSAP_BOOL c) True sr nsr sc nsc =
   solve_rectangular_linear_sum_assignment_dtype nr nc (LSAP_BOOL c) False sr nsr sc nsc"
  by (simp add: solve_bool_maximize)

theorem solve_dtype_bool_maximize_witness:
  "solve_rectangular_linear_sum_assignment_dtype 1 2 (LSAP_BOOL [False, True]) True [] 0 [] 0 =
     Some (SUCCESS, [0], [0]) \<and>
   solve_rectangular_linear_sum_assignment_dtype 1 2 (LSAP_BOOL [False, True]) False [] 0 [] 0 =
     Some (SUCCESS, [0], [0])"
proof -
  have "solve_rectangular_linear_sum_assignment_dtype 1 2 (LSAP_BOOL [False, True]) False [] 0 [] 0 =
     Some (SUCCESS, [0], [0])"
    by (simp add: eval_defs)
  with solve_dtype_bool_maximize[of 1 2 "[False, True]" "[]" 0 "[]" 0] show ?thesis by simp
qed

text \<open>
  C3.  With a column subscript only (\<open>n_subrows = 0\<close>, \<open>n_subcols = 2\<close>, both entries in
  bounds) on a 2 x 2 matrix, \<open>solve\<close> returns status 0 and writes no pair: the working
  number of rows has become \<open>n_subrows = 0\<close>.
\<close>

theorem solve_column_subscript_only:
  "solve T_double 2 2 [Fin 1, Fin 2, Fin 3, Fin 4] False [] 0 [0, 1] 2 = Some (SUCCESS, [], [])"
  by (simp add: eval_defs)

theorem solve_column_subscript_only_witness:
  "map_option fst (solve T_double 2 2 [Fin 1, Fin 2, Fin 3, Fin 4] False [] 0 [0, 1] 2) = Some SUCCESS \<and>
   map_option (\<lambda>r. length (fst (snd r))) (solve T_double 2 2 [Fin 1, Fin 2, Fin 3, Fin 4] False [] 0 [0, 1] 2)
     = Some 0"
  using solve_column_subscript_only by simp

section \<open>The order on the working real type\<close>

lemma dless_irrefl [simp]: "\<not> dless x x"
  by (cases x) auto

lemma dless_trans: "dless x y \<Longrightarrow> dless y z \<Longrightarrow> dless x z"
  by (cases x; cases y; cases z) auto

lemma dless_not_NaN: "dless x y \<Longrightarrow> x \<noteq> NaN \<and> y \<noteq> NaN"
  by (cases x; cases y) auto

lemma dless_asym: "dless x y \<Longrightarrow> \<not> dless y x"
  by (cases x; cases y) auto

lemma dless_linear: "x \<noteq> NaN \<Longrightarrow> y \<noteq> NaN \<Longrightarrow> dless x y \<or> x = y \<or> dless y x"
  by (cases x; cases y) auto

lemma deq_PInf [simp]: "deq x PInf \<longleftrightarrow> x = PInf"
  by (auto simp: deq_def)

lemma dless_PInf: "dless x PInf \<longleftrightarrow> x \<noteq> NaN \<and> x \<noteq> PInf"
  by (cases x) auto

section \<open>One scan of the remaining columns\<close>

text \<open>The value \<open>r\<close> that the scan computes for column \<open>j\<close>, and what it leaves in
  \<open>shortestPathCosts[j]\<close>.\<close>

definition reduced :: "'a dtype \<Rightarrow> 'a matrix2d \<Rightarrow> workspace \<Rightarrow> dbl \<Rightarrow> int \<Rightarrow> int \<Rightarrow> dbl" where
  "reduced T cost w m i j =
     dsub (dsub (dadd m (widen T (the (get T cost i j)))) (u w ! nat i)) (v w ! nat j)"

definition relax :: "dbl \<Rightarrow> dbl \<Rightarrow> dbl" where
  "relax old r = (if dless r old then r else old)"

definition scanned :: "'a dtype \<Rightarrow> 'a matrix2d \<Rightarrow> workspace \<Rightarrow> dbl \<Rightarrow> int \<Rightarrow> int \<Rightarrow> dbl" where
  "scanned T cost w m i j = relax (shortestPathCosts w ! nat j) (reduced T cost w m i j)"

lemma dless_relax [simp]: "\<not> dless r (relax old r)"
  by (simp add: relax_def)

definition visited :: "workspace \<Rightarrow> int \<Rightarrow> int \<Rightarrow> bool" where
  "visited w k j \<longleftrightarrow> (\<exists>it. 0 \<le> it \<and> it < k \<and> remaining w ! nat it = j)"

lemma visited_step:
  assumes "0 \<le> k"
  shows "visited w (k + 1) j \<longleftrightarrow> visited w k j \<or> remaining w ! nat k = j"
proof
  assume "visited w (k + 1) j"
  then obtain it where it: "0 \<le> it" "it < k + 1" "remaining w ! nat it = j"
    by (auto simp: visited_def)
  show "visited w k j \<or> remaining w ! nat k = j"
  proof (cases "it = k")
    case True with it show ?thesis by simp
  next
    case False with it have "0 \<le> it \<and> it < k \<and> remaining w ! nat it = j" by simp
    then show ?thesis unfolding visited_def by blast
  qed
next
  assume "visited w k j \<or> remaining w ! nat k = j"
  then show "visited w (k + 1) j"
  proof
    assume "visited w k j"
    then obtain it where "0 \<le> it" "it < k" "remaining w ! nat it = j"
      by (auto simp: visited_def)
    then have "0 \<le> it \<and> it < k + 1 \<and> remaining w ! nat it = j" by simp
    then show ?thesis unfolding visited_def by blast
  next
    assume "remaining w ! nat k = j"
    with assms have "0 \<le> k \<and> k < k + 1 \<and> remaining w ! nat k = j" by simp
    then show ?thesis unfolding visited_def by blast
  qed
qed

text \<open>What the scan has chosen after the entries \<open>0 .. k-1\<close> of \<open>remaining\<close>: \<open>val it\<close> is
  the cost of the column at entry \<open>it\<close>, \<open>unm it\<close> says that this column is unmatched.\<close>

definition chosen :: "(int \<Rightarrow> dbl) \<Rightarrow> (int \<Rightarrow> bool) \<Rightarrow> int \<Rightarrow> dbl \<Rightarrow> int \<Rightarrow> bool" where
  "chosen val unm k lowest index \<longleftrightarrow>
     lowest \<noteq> NaN \<and>
     (\<forall>it. 0 \<le> it \<and> it < k \<longrightarrow> \<not> dless (val it) lowest) \<and>
     (index = - 1 \<longrightarrow>
        lowest = PInf \<and> (\<forall>it. 0 \<le> it \<and> it < k \<longrightarrow> \<not> (deq (val it) PInf \<and> unm it))) \<and>
     (index \<noteq> - 1 \<longrightarrow>
        0 \<le> index \<and> index < k \<and> val index = lowest \<and>
        (\<forall>it. 0 \<le> it \<and> it < k \<and> deq (val it) lowest \<and> unm it \<longrightarrow> it \<le> index \<and> unm index) \<and>
        (\<not> unm index \<longrightarrow> (\<forall>it. 0 \<le> it \<and> it < index \<longrightarrow> \<not> deq (val it) lowest)))"

lemma chosenI_none:
  assumes "\<And>it. 0 \<le> it \<Longrightarrow> it < k \<Longrightarrow> val it = NaN \<or> (val it = PInf \<and> \<not> unm it)"
  shows "chosen val unm k PInf (- 1)"
proof -
  have a: "\<forall>it. 0 \<le> it \<and> it < k \<longrightarrow> \<not> dless (val it) PInf"
    using assms by (auto simp: dless_PInf)
  have b: "\<forall>it. 0 \<le> it \<and> it < k \<longrightarrow> \<not> (deq (val it) PInf \<and> unm it)"
  proof (intro allI impI)
    fix it assume "0 \<le> it \<and> it < k"
    with assms[of it] have "val it = NaN \<or> (val it = PInf \<and> \<not> unm it)" by simp
    then show "\<not> (deq (val it) PInf \<and> unm it)" by auto
  qed
  show ?thesis unfolding chosen_def using a b by simp
qed

lemma chosenI_some:
  assumes "lowest \<noteq> NaN" and "0 \<le> index" and "index < k" and "val index = lowest"
    and "\<And>it. 0 \<le> it \<Longrightarrow> it < k \<Longrightarrow> \<not> dless (val it) lowest"
    and "\<And>it. 0 \<le> it \<Longrightarrow> it < k \<Longrightarrow> deq (val it) lowest \<Longrightarrow> unm it \<Longrightarrow> it \<le> index \<and> unm index"
    and "\<And>it. \<not> unm index \<Longrightarrow> 0 \<le> it \<Longrightarrow> it < index \<Longrightarrow> \<not> deq (val it) lowest"
  shows "chosen val unm k lowest index"
proof -
  from assms(2) have ne: "index \<noteq> - 1" by simp
  have a: "\<forall>it. 0 \<le> it \<and> it < k \<longrightarrow> \<not> dless (val it) lowest" using assms(5) by blast
  have b: "\<forall>it. 0 \<le> it \<and> it < k \<and> deq (val it) lowest \<and> unm it \<longrightarrow> it \<le> index \<and> unm index"
    using assms(6) by blast
  have c: "\<not> unm index \<longrightarrow> (\<forall>it. 0 \<le> it \<and> it < index \<longrightarrow> \<not> deq (val it) lowest)"
    using assms(7) by blast
  show ?thesis
    unfolding chosen_def using ne a b c assms(1-4) by blast
qed

lemma chosen_none:
  assumes "chosen val unm k lowest (- 1)" and "0 \<le> it" and "it < k"
  shows "lowest = PInf" and "val it = NaN \<or> (val it = PInf \<and> \<not> unm it)"
proof -
  from assms(1) show l: "lowest = PInf" unfolding chosen_def by blast
  from assms(1) have "\<forall>it. 0 \<le> it \<and> it < k \<longrightarrow> \<not> dless (val it) lowest"
    and "\<forall>it. 0 \<le> it \<and> it < k \<longrightarrow> \<not> (deq (val it) PInf \<and> unm it)"
    unfolding chosen_def by blast+
  with assms(2,3) l have "\<not> dless (val it) PInf" "\<not> (deq (val it) PInf \<and> unm it)" by blast+
  then show "val it = NaN \<or> (val it = PInf \<and> \<not> unm it)"
    by (auto simp: dless_PInf)
qed

lemma chosen_none_low: "chosen val unm k lowest (- 1) \<Longrightarrow> lowest = PInf"
  unfolding chosen_def by blast

lemma chosen_some:
  assumes "chosen val unm k lowest index" and "index \<noteq> - 1"
  shows "0 \<le> index" and "index < k" and "val index = lowest"
    and "\<And>it. 0 \<le> it \<Longrightarrow> it < k \<Longrightarrow> deq (val it) lowest \<Longrightarrow> unm it \<Longrightarrow> it \<le> index \<and> unm index"
    and "\<And>it. \<not> unm index \<Longrightarrow> 0 \<le> it \<Longrightarrow> it < index \<Longrightarrow> \<not> deq (val it) lowest"
proof -
  from assms have x: "0 \<le> index \<and> index < k \<and> val index = lowest \<and>
           (\<forall>it. 0 \<le> it \<and> it < k \<and> deq (val it) lowest \<and> unm it \<longrightarrow> it \<le> index \<and> unm index) \<and>
           (\<not> unm index \<longrightarrow> (\<forall>it. 0 \<le> it \<and> it < index \<longrightarrow> \<not> deq (val it) lowest))"
    unfolding chosen_def by blast
  from x show "0 \<le> index" "index < k" "val index = lowest" by blast+
  from x show "\<And>it. 0 \<le> it \<Longrightarrow> it < k \<Longrightarrow> deq (val it) lowest \<Longrightarrow> unm it \<Longrightarrow> it \<le> index \<and> unm index"
    by blast
  from x show "\<And>it. \<not> unm index \<Longrightarrow> 0 \<le> it \<Longrightarrow> it < index \<Longrightarrow> \<not> deq (val it) lowest"
    by blast
qed

lemma chosen_low:
  assumes "chosen val unm k lowest index"
  shows "lowest \<noteq> NaN" and "\<And>it. 0 \<le> it \<Longrightarrow> it < k \<Longrightarrow> \<not> dless (val it) lowest"
  using assms unfolding chosen_def by blast+

lemma chosen_start: "chosen val unm 0 PInf (- 1)"
  by (rule chosenI_none) simp

lemma chosen_take:
  assumes "chosen val unm k lowest index" and "0 \<le> k"
    and "dless (val k) lowest \<or> (deq (val k) lowest \<and> unm k)"
  shows "chosen val unm (k + 1) (val k) k"
proof (rule chosenI_some)
  from assms(3) show "val k \<noteq> NaN" by (auto simp: deq_def dest: dless_not_NaN)
  show "0 \<le> k" by fact
  show "k < k + 1" by simp
  show "val k = val k" ..
  have strict: "dless (val k) lowest" if "\<not> unm k" using that assms(3) by auto
  have old: "\<not> dless (val it) lowest" if "0 \<le> it" "it < k" for it
    using chosen_low(2)[OF assms(1) that] .
  show "\<not> dless (val it) (val k)" if "0 \<le> it" "it < k + 1" for it
  proof (cases "it = k")
    case True then show ?thesis by simp
  next
    case False
    with that have "it < k" by simp
    from old[OF that(1) this] have a: "\<not> dless (val it) lowest" .
    show ?thesis
    proof
      assume "dless (val it) (val k)"
      with assms(3) have "dless (val it) lowest" by (auto simp: deq_def dest: dless_trans)
      with a show False by contradiction
    qed
  qed
  show "it \<le> k \<and> unm k" if "0 \<le> it" "it < k + 1" "deq (val it) (val k)" "unm it" for it
  proof (cases "it = k")
    case True with that show ?thesis by simp
  next
    case False
    with that have lt: "it < k" by simp
    from old[OF that(1) this] have a: "\<not> dless (val it) lowest" .
    have "unm k"
    proof (rule ccontr)
      assume "\<not> unm k"
      from strict[OF this] that(3) have "dless (val it) lowest" by (simp add: deq_def)
      with a show False by contradiction
    qed
    with lt show ?thesis by simp
  qed
  show "\<not> deq (val it) (val k)" if "\<not> unm k" "0 \<le> it" "it < k" for it
  proof
    assume "deq (val it) (val k)"
    with strict[OF that(1)] have "dless (val it) lowest" by (simp add: deq_def)
    with old[OF that(2,3)] show False by contradiction
  qed
qed

lemma chosen_skip:
  assumes "chosen val unm k lowest index" and "0 \<le> k"
    and "\<not> (dless (val k) lowest \<or> (deq (val k) lowest \<and> unm k))"
  shows "chosen val unm (k + 1) lowest index"
proof (cases "index = - 1")
  case True
  note n = chosen_none_low[OF assms(1)[unfolded True]] chosen_none(2)[OF assms(1)[unfolded True]]
  have "chosen val unm (k + 1) PInf (- 1)"
  proof (rule chosenI_none)
    fix it assume it: "0 \<le> it" "it < k + 1"
    show "val it = NaN \<or> val it = PInf \<and> \<not> unm it"
    proof (cases "it = k")
      case True
      from assms(3) n(1) have "\<not> dless (val k) PInf" "\<not> (val k = PInf \<and> unm k)" by auto
      with True show ?thesis by (auto simp: dless_PInf)
    next
      case False
      with it have "it < k" by simp
      from n(2)[OF it(1) this] show ?thesis .
    qed
  qed
  with n(1) True show ?thesis by simp
next
  case False
  note s = chosen_some[OF assms(1) False]
  show ?thesis
  proof (rule chosenI_some)
    show "lowest \<noteq> NaN" by (rule chosen_low(1)[OF assms(1)])
    show "0 \<le> index" by (rule s(1))
    from s(2) show "index < k + 1" by simp
    show "val index = lowest" by (rule s(3))
    show "\<not> dless (val it) lowest" if "0 \<le> it" "it < k + 1" for it
    proof (cases "it = k")
      case True with assms(3) show ?thesis by simp
    next
      case False
      with that have "it < k" by simp
      from chosen_low(2)[OF assms(1) that(1) this] show ?thesis .
    qed
    show "it \<le> index \<and> unm index" if "0 \<le> it" "it < k + 1" "deq (val it) lowest" "unm it" for it
    proof (cases "it = k")
      case True with assms(3) that show ?thesis by simp
    next
      case False
      with that have "it < k" by simp
      from s(4)[OF that(1) this that(3,4)] show ?thesis .
    qed
    show "\<not> deq (val it) lowest" if "\<not> unm index" "0 \<le> it" "it < index" for it
      using s(5)[OF that] .
  qed
qed

lemma relax_relax [simp]: "relax (relax old r) r = relax old r"
  by (simp add: relax_def)

lemma bindE:
  assumes "Option.bind m f = Some y"
  obtains x where "m = Some x" and "f x = Some y"
  using assms by (cases m) auto

lemma scan_step_unfold:
  assumes "scan_step T cost m i k (w1, lowest, index) = Some (w2, lowest', index')"
  obtains j c where
    "rd (remaining w1) k = Some j" and "get T cost i j = Some c" and
    "0 \<le> i" and "nat i < length (u w1)" and "0 \<le> j" and "nat j < length (v w1)" and
    "nat j < length (shortestPathCosts w1)" and
    "dless (reduced T cost w1 m i j) (shortestPathCosts w1 ! nat j) \<Longrightarrow>
       nat j < length (path w1) \<and>
       w2 = w1\<lparr>path := (path w1)[nat j := i],
               shortestPathCosts := (shortestPathCosts w1)[nat j := reduced T cost w1 m i j]\<rparr>" and
    "\<not> dless (reduced T cost w1 m i j) (shortestPathCosts w1 ! nat j) \<Longrightarrow> w2 = w1" and
    "shortestPathCosts w2 ! nat j = scanned T cost w1 m i j" and
    "dless (scanned T cost w1 m i j) lowest \<or>
       (deq (scanned T cost w1 m i j) lowest \<and> row4col w1 ! nat j = - 1)
     \<Longrightarrow> lowest' = scanned T cost w1 m i j \<and> index' = k" and
    "\<not> (dless (scanned T cost w1 m i j) lowest \<or>
       (deq (scanned T cost w1 m i j) lowest \<and> row4col w1 ! nat j = - 1))
     \<Longrightarrow> lowest' = lowest \<and> index' = index"
proof -
  from assms[unfolded scan_step_def Let_def prod.case] obtain j c ui vj old w1' spj tk where
    j: "rd (remaining w1) k = Some j" and c: "get T cost i j = Some c" and
    ui: "rd (u w1) i = Some ui" and vj: "rd (v w1) j = Some vj" and
    old: "rd (shortestPathCosts w1) j = Some old" and
    w1': "(if dless (dsub (dsub (dadd m (widen T c)) ui) vj) old
            then do {
              p \<leftarrow> wr (path w1) j i;
              s \<leftarrow> wr (shortestPathCosts w1) j (dsub (dsub (dadd m (widen T c)) ui) vj);
              Some (w1\<lparr> path := p, shortestPathCosts := s \<rparr>)
            }
            else Some w1) = Some w1'" and
    spj: "rd (shortestPathCosts w1') j = Some spj" and
    tk: "(if dless spj lowest then Some True
              else if deq spj lowest
                then do { r4c \<leftarrow> rd (row4col w1') j; Some (r4c = - 1) }
                else Some False) = Some tk" and
    res0: "Some (if tk then (w1', spj, k) else (w1', lowest, index)) = Some (w2, lowest', index')"
    by (elim bindE) (rule that; assumption)
  from res0 have res: "(w2, lowest', index') = (if tk then (w1', spj, k) else (w1', lowest, index))"
    by simp
  let ?r = "reduced T cost w1 m i j"
  have r: "dsub (dsub (dadd m (widen T c)) ui) vj = ?r"
    using c ui vj by (simp add: reduced_def rd_Some)
  have o: "old = shortestPathCosts w1 ! nat j" using old by (simp add: rd_Some)
  have w2: "w2 = w1'" using res by (auto split: if_splits)
  have up: "nat j < length (path w1) \<and>
       w2 = w1\<lparr>path := (path w1)[nat j := i],
               shortestPathCosts := (shortestPathCosts w1)[nat j := ?r]\<rparr>"
    if "dless ?r (shortestPathCosts w1 ! nat j)"
    using that w1' r o w2 by (auto simp: wr_Some split: Option.bind_splits)
  have nup: "w2 = w1" if "\<not> dless ?r (shortestPathCosts w1 ! nat j)"
    using that w1' r o w2 by auto
  have jl: "nat j < length (shortestPathCosts w1)" using old by (simp add: rd_Some)
  have sp: "shortestPathCosts w2 ! nat j = scanned T cost w1 m i j"
  proof (cases "dless ?r (shortestPathCosts w1 ! nat j)")
    case True
    with up jl show ?thesis by (simp add: scanned_def relax_def)
  next
    case False
    with nup show ?thesis by (simp add: scanned_def relax_def)
  qed
  have spj': "spj = scanned T cost w1 m i j" using spj sp w2 by (simp add: rd_Some)
  have r4: "row4col w1' = row4col w1" using w1' by (auto simp: wr_Some split: Option.bind_splits if_splits)
  have tk': "tk \<longleftrightarrow> dless spj lowest \<or> (deq spj lowest \<and> row4col w1 ! nat j = - 1)"
    using tk r4 by (auto simp: rd_Some split: if_splits Option.bind_splits)
  show ?thesis
  proof (rule that[OF j c])
    show "0 \<le> i" "nat i < length (u w1)" using ui by (auto simp: rd_Some)
    show "0 \<le> j" "nat j < length (v w1)" using vj by (auto simp: rd_Some)
    show "nat j < length (shortestPathCosts w1)" by (rule jl)
    show "dless ?r (shortestPathCosts w1 ! nat j) \<Longrightarrow>
       nat j < length (path w1) \<and>
       w2 = w1\<lparr>path := (path w1)[nat j := i],
               shortestPathCosts := (shortestPathCosts w1)[nat j := ?r]\<rparr>" by (rule up)
    show "\<not> dless ?r (shortestPathCosts w1 ! nat j) \<Longrightarrow> w2 = w1" by (rule nup)
    show "shortestPathCosts w2 ! nat j = scanned T cost w1 m i j" by (rule sp)
    show "dless (scanned T cost w1 m i j) lowest \<or>
       (deq (scanned T cost w1 m i j) lowest \<and> row4col w1 ! nat j = - 1)
       \<Longrightarrow> lowest' = scanned T cost w1 m i j \<and> index' = k"
      using tk' spj' res by auto
    show "\<not> (dless (scanned T cost w1 m i j) lowest \<or>
       (deq (scanned T cost w1 m i j) lowest \<and> row4col w1 ! nat j = - 1))
       \<Longrightarrow> lowest' = lowest \<and> index' = index"
      using tk' spj' res by auto
  qed
qed

text \<open>What entry \<open>it\<close> of the scan reads.\<close>

definition scan_reads :: "'a dtype \<Rightarrow> 'a matrix2d \<Rightarrow> workspace \<Rightarrow> int \<Rightarrow> int \<Rightarrow> bool" where
  "scan_reads T cost w i it \<longleftrightarrow>
     nat it < length (remaining w) \<and> 0 \<le> remaining w ! nat it \<and>
     nat (remaining w ! nat it) < length (v w) \<and>
     nat (remaining w ! nat it) < length (shortestPathCosts w) \<and>
     get T cost i (remaining w ! nat it) \<noteq> None \<and> 0 \<le> i \<and> nat i < length (u w)"

text \<open>The state of the scan before entry \<open>k\<close>, in terms of the workspace \<open>w\<close> it started
  from.\<close>

definition scan_inv ::
  "'a dtype \<Rightarrow> 'a matrix2d \<Rightarrow> dbl \<Rightarrow> int \<Rightarrow> workspace \<Rightarrow> int \<Rightarrow> workspace \<times> dbl \<times> int \<Rightarrow> bool" where
  "scan_inv T cost m i w k s \<longleftrightarrow> (case s of (w', lowest, index) \<Rightarrow>
     (\<exists>P S. w' = w\<lparr>path := P, shortestPathCosts := S\<rparr> \<and>
        length P = length (path w) \<and> length S = length (shortestPathCosts w) \<and>
        (\<forall>j. 0 \<le> j \<longrightarrow> S ! nat j =
           (if visited w k j then scanned T cost w m i j else shortestPathCosts w ! nat j)) \<and>
        (\<forall>j. 0 \<le> j \<longrightarrow> P ! nat j =
           (if visited w k j \<and> dless (reduced T cost w m i j) (shortestPathCosts w ! nat j)
            then i else path w ! nat j))) \<and>
     (\<forall>it. 0 \<le> it \<and> it < k \<longrightarrow> scan_reads T cost w i it) \<and>
     chosen (\<lambda>it. scanned T cost w m i (remaining w ! nat it))
            (\<lambda>it. row4col w ! nat (remaining w ! nat it) = - 1) k lowest index)"

lemma reduced_frame [simp]:
  "reduced T cost (w\<lparr>path := P, shortestPathCosts := S\<rparr>) m i j = reduced T cost w m i j"
  by (simp add: reduced_def)

lemma scan_inv_start: "scan_inv T cost m i w 0 (w, PInf, - 1)"
proof -
  have "w = w\<lparr>path := path w, shortestPathCosts := shortestPathCosts w\<rparr>" by simp
  moreover have "\<not> visited w 0 j" for j by (auto simp: visited_def)
  ultimately show ?thesis
    unfolding scan_inv_def prod.case
    by (intro conjI exI[of _ "path w"] exI[of _ "shortestPathCosts w"])
       (auto intro: chosen_start)
qed

lemma scan_step_inv:
  assumes inv: "scan_inv T cost m i w k s" and k: "0 \<le> k"
    and step: "scan_step T cost m i k s = Some s'"
  shows "scan_inv T cost m i w (k + 1) s'"
proof -
  obtain w1 lowest index where s: "s = (w1, lowest, index)" by (cases s)
  obtain w2 lowest' index' where s': "s' = (w2, lowest', index')" by (cases s')
  from inv s obtain P S where
    w1: "w1 = w\<lparr>path := P, shortestPathCosts := S\<rparr>" and
    lP: "length P = length (path w)" and lS: "length S = length (shortestPathCosts w)" and
    S: "\<And>j. 0 \<le> j \<Longrightarrow> S ! nat j =
           (if visited w k j then scanned T cost w m i j else shortestPathCosts w ! nat j)" and
    P: "\<And>j. 0 \<le> j \<Longrightarrow> P ! nat j =
           (if visited w k j \<and> dless (reduced T cost w m i j) (shortestPathCosts w ! nat j)
            then i else path w ! nat j)" and
    reads: "\<And>it. 0 \<le> it \<Longrightarrow> it < k \<Longrightarrow> scan_reads T cost w i it" and
    ch: "chosen (\<lambda>it. scanned T cost w m i (remaining w ! nat it))
            (\<lambda>it. row4col w ! nat (remaining w ! nat it) = - 1) k lowest index"
    unfolding scan_inv_def by auto
  let ?val = "\<lambda>it. scanned T cost w m i (remaining w ! nat it)"
  let ?unm = "\<lambda>it. row4col w ! nat (remaining w ! nat it) = - 1"
  from step[unfolded s s'] obtain j c where
    j: "rd (remaining w1) k = Some j" and c: "get T cost i j = Some c" and
    i0: "0 \<le> i" and il: "nat i < length (u w1)" and j0: "0 \<le> j" and
    jv: "nat j < length (v w1)" and js: "nat j < length (shortestPathCosts w1)" and
    up: "dless (reduced T cost w1 m i j) (shortestPathCosts w1 ! nat j) \<Longrightarrow>
       nat j < length (path w1) \<and>
       w2 = w1\<lparr>path := (path w1)[nat j := i],
               shortestPathCosts := (shortestPathCosts w1)[nat j := reduced T cost w1 m i j]\<rparr>" and
    nup: "\<not> dless (reduced T cost w1 m i j) (shortestPathCosts w1 ! nat j) \<Longrightarrow> w2 = w1" and
    sp: "shortestPathCosts w2 ! nat j = scanned T cost w1 m i j" and
    tk: "dless (scanned T cost w1 m i j) lowest \<or>
       (deq (scanned T cost w1 m i j) lowest \<and> row4col w1 ! nat j = - 1)
       \<Longrightarrow> lowest' = scanned T cost w1 m i j \<and> index' = k" and
    ntk: "\<not> (dless (scanned T cost w1 m i j) lowest \<or>
       (deq (scanned T cost w1 m i j) lowest \<and> row4col w1 ! nat j = - 1))
       \<Longrightarrow> lowest' = lowest \<and> index' = index"
    by (rule scan_step_unfold) (rule that; blast)
  let ?r = "reduced T cost w m i j"
  let ?o = "shortestPathCosts w ! nat j"
  from j w1 have jk: "j = remaining w ! nat k" and kl: "nat k < length (remaining w)"
    by (auto simp: rd_Some)
  have Sj: "S ! nat j = (if visited w k j then scanned T cost w m i j else ?o)"
    using S[OF j0] .
  have sc1: "scanned T cost w1 m i j = scanned T cost w m i j"
    using Sj w1 by (auto simp: scanned_def)
  have vis: "visited w (k + 1) j' \<longleftrightarrow> visited w k j' \<or> j' = j" for j'
    using visited_step[OF k, of w j'] jk by auto
  have neq: "nat j' \<noteq> nat j" if "0 \<le> j'" "j' \<noteq> j" for j' using that j0 by simp
  have "\<exists>P' S'. w2 = w\<lparr>path := P', shortestPathCosts := S'\<rparr> \<and>
        length P' = length (path w) \<and> length S' = length (shortestPathCosts w) \<and>
        (\<forall>j. 0 \<le> j \<longrightarrow> S' ! nat j =
           (if visited w (k + 1) j then scanned T cost w m i j else shortestPathCosts w ! nat j)) \<and>
        (\<forall>j. 0 \<le> j \<longrightarrow> P' ! nat j =
           (if visited w (k + 1) j \<and> dless (reduced T cost w m i j) (shortestPathCosts w ! nat j)
            then i else path w ! nat j))"
  proof (cases "dless ?r (S ! nat j)")
    case True
    have nv: "\<not> visited w k j"
    proof
      assume "visited w k j"
      with Sj True show False by (simp add: scanned_def)
    qed
    with Sj True have d: "dless ?r ?o" by simp
    from up True w1 have jp: "nat j < length P" and
      w2: "w2 = w\<lparr>path := P[nat j := i], shortestPathCosts := S[nat j := ?r]\<rparr>"
      by auto
    from js w1 have jS: "nat j < length S" by simp
    show ?thesis
    proof (intro exI conjI allI impI)
      show "w2 = w\<lparr>path := P[nat j := i], shortestPathCosts := S[nat j := ?r]\<rparr>" by (rule w2)
      show "length (P[nat j := i]) = length (path w)" using lP by simp
      show "length (S[nat j := ?r]) = length (shortestPathCosts w)" using lS by simp
    next
      fix j' :: int assume j': "0 \<le> j'"
      show "S[nat j := ?r] ! nat j' =
           (if visited w (k + 1) j' then scanned T cost w m i j' else shortestPathCosts w ! nat j')"
      proof (cases "j' = j")
        case True
        with jS d show ?thesis by (simp add: vis scanned_def relax_def)
      next
        case False
        with neq[OF j' False] S[OF j'] show ?thesis by (simp add: vis)
      qed
      show "P[nat j := i] ! nat j' =
           (if visited w (k + 1) j' \<and> dless (reduced T cost w m i j') (shortestPathCosts w ! nat j')
            then i else path w ! nat j')"
      proof (cases "j' = j")
        case True
        with jp d show ?thesis by (simp add: vis)
      next
        case False
        with neq[OF j' False] P[OF j'] show ?thesis by (simp add: vis)
      qed
    qed
  next
    case False
    with nup w1 have w2: "w2 = w\<lparr>path := P, shortestPathCosts := S\<rparr>" by simp
    have nd: "\<not> dless ?r ?o" if "\<not> visited w k j" using that False Sj by simp
    show ?thesis
    proof (intro exI conjI allI impI)
      show "w2 = w\<lparr>path := P, shortestPathCosts := S\<rparr>" by (rule w2)
      show "length P = length (path w)" by (rule lP)
      show "length S = length (shortestPathCosts w)" by (rule lS)
    next
      fix j' :: int assume j': "0 \<le> j'"
      show "S ! nat j' =
           (if visited w (k + 1) j' then scanned T cost w m i j' else shortestPathCosts w ! nat j')"
      proof (cases "j' = j")
        case True
        with Sj nd show ?thesis by (auto simp: vis scanned_def relax_def)
      next
        case False
        with S[OF j'] show ?thesis by (simp add: vis)
      qed
      show "P ! nat j' =
           (if visited w (k + 1) j' \<and> dless (reduced T cost w m i j') (shortestPathCosts w ! nat j')
            then i else path w ! nat j')"
      proof (cases "j' = j")
        case True
        with P[OF j0] nd show ?thesis by (auto simp: vis)
      next
        case False
        with P[OF j'] show ?thesis by (simp add: vis)
      qed
    qed
  qed
  moreover have "scan_reads T cost w i it" if "0 \<le> it" "it < k + 1" for it
  proof (cases "it = k")
    case True
    with kl jk j0 jv js c i0 il w1 lS show ?thesis by (simp add: scan_reads_def)
  next
    case False
    with that have "it < k" by simp
    from reads[OF that(1) this] show ?thesis .
  qed
  moreover have "chosen ?val ?unm (k + 1) lowest' index'"
  proof (cases "dless (?val k) lowest \<or> (deq (?val k) lowest \<and> ?unm k)")
    case True
    with tk sc1 jk w1 have "lowest' = ?val k" "index' = k" by auto
    with chosen_take[OF ch k True] show ?thesis by simp
  next
    case False
    with ntk sc1 jk w1 have "lowest' = lowest" "index' = index" by auto
    with chosen_skip[OF ch k False] show ?thesis by simp
  qed
  ultimately show ?thesis
    unfolding scan_inv_def s' prod.case by blast
qed

lemma scan_loop_inv:
  assumes "for_loop 0 n (scan_step T cost m i) (w, PInf, - 1) = Some s'" and "0 \<le> n"
  shows "scan_inv T cost m i w n s'"
proof (rule for_loop_rule[OF assms(1) _ assms(2), where I = "scan_inv T cost m i w"])
  show "scan_inv T cost m i w 0 (w, PInf, - 1)" by (rule scan_inv_start)
next
  fix k t t'
  assume "0 \<le> k" "scan_inv T cost m i w k t" "scan_step T cost m i k t = Some t'"
  then show "scan_inv T cost m i w (k + 1) t'" using scan_step_inv by blast
qed

lemma scan_inv_visited:
  assumes "\<forall>it. 0 \<le> it \<and> it < n \<longrightarrow> scan_reads T cost w i it" and "0 \<le> it" and "it < n"
  shows "0 \<le> remaining w ! nat it" and "visited w n (remaining w ! nat it)"
  using assms by (auto simp: scan_reads_def visited_def)

text \<open>
  C2, as the code has it.  One scan of \<open>remaining[0 .. n)\<close>, as every round of the search
  runs it, that leaves \<open>lowest\<close> below \<open>+\<infinity>\<close>: the entry \<open>index\<close> it selects holds a column
  whose \<open>shortestPathCosts\<close> is \<open>lowest\<close>, the minimum over the scanned entries.  If some
  entry tied for the minimum holds an unmatched column, the selected column is unmatched
  and is the last such entry of the forward scan; if none does, the selected entry is
  the first one tied for the minimum.
\<close>

theorem scan_tie_break:
  assumes "for_loop 0 n (scan_step T cost m i) (w, PInf, - 1) = Some (w', lowest, index)"
    and "0 \<le> n" and "lowest \<noteq> PInf"
  shows "0 \<le> index \<and> index < n \<and>
         shortestPathCosts w' ! nat (remaining w ! nat index) = lowest \<and>
         (\<forall>it. 0 \<le> it \<and> it < n \<longrightarrow>
            \<not> dless (shortestPathCosts w' ! nat (remaining w ! nat it)) lowest) \<and>
         (\<forall>it. 0 \<le> it \<and> it < n \<and>
               shortestPathCosts w' ! nat (remaining w ! nat it) = lowest \<and>
               row4col w ! nat (remaining w ! nat it) = - 1 \<longrightarrow>
            it \<le> index \<and> row4col w ! nat (remaining w ! nat index) = - 1) \<and>
         (row4col w ! nat (remaining w ! nat index) \<noteq> - 1 \<longrightarrow>
            (\<forall>it. 0 \<le> it \<and> it < index \<longrightarrow>
               shortestPathCosts w' ! nat (remaining w ! nat it) \<noteq> lowest))"
proof -
  let ?val = "\<lambda>it. scanned T cost w m i (remaining w ! nat it)"
  let ?unm = "\<lambda>it. row4col w ! nat (remaining w ! nat it) = - 1"
  from scan_loop_inv[OF assms(1,2)] obtain P S where
    w': "w' = w\<lparr>path := P, shortestPathCosts := S\<rparr>" and
    S: "\<And>j. 0 \<le> j \<Longrightarrow> S ! nat j =
           (if visited w n j then scanned T cost w m i j else shortestPathCosts w ! nat j)" and
    reads: "\<forall>it. 0 \<le> it \<and> it < n \<longrightarrow> scan_reads T cost w i it" and
    ch: "chosen ?val ?unm n lowest index"
    unfolding scan_inv_def by auto
  have val: "shortestPathCosts w' ! nat (remaining w ! nat it) = ?val it"
    if "0 \<le> it" "it < n" for it
    using S[OF scan_inv_visited(1)[OF reads that]] scan_inv_visited(2)[OF reads that] w'
    by simp
  from ch assms(3) have ne: "index \<noteq> - 1" by (auto dest: chosen_none_low)
  note s = chosen_some[OF ch ne]
  note l = chosen_low[OF ch]
  have a: "shortestPathCosts w' ! nat (remaining w ! nat index) = lowest"
    using val[OF s(1,2)] s(3) by simp
  have b: "\<not> dless (shortestPathCosts w' ! nat (remaining w ! nat it)) lowest"
    if "0 \<le> it \<and> it < n" for it
    using val[of it] l(2)[of it] that by simp
  have c: "it \<le> index \<and> ?unm index"
    if "0 \<le> it \<and> it < n \<and> shortestPathCosts w' ! nat (remaining w ! nat it) = lowest \<and> ?unm it" for it
    using val[of it] s(4)[of it] that l(1) by (simp add: deq_def)
  have d: "shortestPathCosts w' ! nat (remaining w ! nat it) \<noteq> lowest"
    if "\<not> ?unm index" "0 \<le> it \<and> it < index" for it
  proof -
    from that s(2) have "it < n" by simp
    with val[of it] s(5)[OF that(1), of it] that l(1) show ?thesis by (auto simp: deq_def)
  qed
  from s(1,2) a b c d show ?thesis by blast
qed

definition w_1x2 :: workspace where
  "w_1x2 = \<lparr> u = [Fin 0], v = [Fin 0, Fin 0], shortestPathCosts = [PInf, PInf],
             path = [- 1, - 1], col4row = [- 1], row4col = [- 1, - 1],
             SR = [True], SC = [False, False], remaining = [1, 0] \<rparr>"

lemma scan_1x2:
  "for_loop 0 2 (scan_step T_double (matrix2d [Fin 1, Fin 1] 1 2) (Fin 0) 0) (w_1x2, PInf, - 1) =
     Some (w_1x2\<lparr>path := [0, 0], shortestPathCosts := [Fin 1, Fin 1]\<rparr>, Fin 1, 1)"
  by (simp add: eval_defs w_1x2_def)

theorem scan_tie_break_witness:
  "(0::int) \<le> 1 \<and> (1::int) < 2 \<and>
   shortestPathCosts (w_1x2\<lparr>path := [0, 0], shortestPathCosts := [Fin 1, Fin 1]\<rparr>) !
       nat (remaining w_1x2 ! nat 1) = Fin 1 \<and>
   row4col w_1x2 ! nat (remaining w_1x2 ! nat 1) = - 1"
  using scan_tie_break[OF scan_1x2] by (simp add: w_1x2_def)

text \<open>
  The claim as stated fails: on the first scan for the constant 1 x 2 matrix, both
  columns are tied and unmatched; the first one of the forward scan is entry 0 (column 1),
  and the scan selects entry 1 (column 0).
\<close>

theorem scan_first_tied_not_selected:
  "for_loop 0 2 (scan_step T_double (matrix2d [Fin 1, Fin 1] 1 2) (Fin 0) 0) (w_1x2, PInf, - 1) =
     Some (w_1x2\<lparr>path := [0, 0], shortestPathCosts := [Fin 1, Fin 1]\<rparr>, Fin 1, 1) \<and>
   remaining w_1x2 = [1, 0] \<and>
   shortestPathCosts (w_1x2\<lparr>path := [0, 0], shortestPathCosts := [Fin 1, Fin 1]\<rparr>) ! 1 = Fin 1 \<and>
   row4col w_1x2 ! 1 = - 1 \<and> (1::int) \<noteq> 0"
  using scan_1x2 by (simp add: w_1x2_def)

section \<open>The matching and the search tree\<close>

text \<open>The rows below \<open>c\<close> are matched, the others are not, and \<open>col4row\<close> and \<open>row4col\<close>
  are inverse to each other.\<close>

definition matching :: "nat \<Rightarrow> nat \<Rightarrow> nat \<Rightarrow> workspace \<Rightarrow> bool" where
  "matching nr nc c w \<longleftrightarrow>
     lens nr nc w \<and> c \<le> nr \<and>
     (\<forall>i<nr. if i < c
        then 0 \<le> col4row w ! i \<and> nat (col4row w ! i) < nc \<and>
             row4col w ! nat (col4row w ! i) = int i
        else col4row w ! i = - 1) \<and>
     (\<forall>j<nc. row4col w ! j = - 1 \<or>
        (0 \<le> row4col w ! j \<and> nat (row4col w ! j) < c \<and>
         col4row w ! nat (row4col w ! j) = int j))"

text \<open>The first \<open>n\<close> entries of \<open>remaining\<close> are the columns outside \<open>SC\<close>, each once.\<close>

definition rem_ok :: "nat \<Rightarrow> int \<Rightarrow> workspace \<Rightarrow> bool" where
  "rem_ok nc n w \<longleftrightarrow>
     0 \<le> n \<and> nat n \<le> nc \<and>
     (\<forall>k<nat n. 0 \<le> remaining w ! k \<and> nat (remaining w ! k) < nc \<and>
        \<not> SC w ! nat (remaining w ! k)) \<and>
     (\<forall>k<nat n. \<forall>k'<nat n. k \<noteq> k' \<longrightarrow> remaining w ! k \<noteq> remaining w ! k') \<and>
     (\<forall>j<nc. \<not> SC w ! j \<longrightarrow> (\<exists>k<nat n. remaining w ! k = int j))"

text \<open>The rows in \<open>SR\<close> are \<open>c\<close> and rows matched to columns in \<open>SC\<close>.\<close>

definition rows_ok :: "nat \<Rightarrow> nat \<Rightarrow> workspace \<Rightarrow> bool" where
  "rows_ok nr c w \<longleftrightarrow>
     (\<forall>i<nr. SR w ! i \<longrightarrow> i = c \<or> (i < c \<and> SC w ! nat (col4row w ! i)))"

text \<open>Every column in \<open>SC\<close> has its predecessor \<open>path\<close> in \<open>SR\<close>; the predecessor is \<open>c\<close>, or
  its column is in \<open>SC\<close> with a smaller rank: following \<open>path\<close> and \<open>col4row\<close> leads to \<open>c\<close>.\<close>

definition tree :: "nat \<Rightarrow> nat \<Rightarrow> nat \<Rightarrow> (nat \<Rightarrow> nat) \<Rightarrow> workspace \<Rightarrow> bool" where
  "tree nr nc c rank w \<longleftrightarrow>
     (\<forall>j<nc. SC w ! j \<longrightarrow>
        0 \<le> path w ! j \<and> nat (path w ! j) < nr \<and> SR w ! nat (path w ! j) \<and>
        (path w ! j = int c \<or>
         (SC w ! nat (col4row w ! nat (path w ! j)) \<and>
          rank (nat (col4row w ! nat (path w ! j))) < rank j)))"

text \<open>The state at the head of \<open>while (sink == -1)\<close>, for the row \<open>i\<close> about to be scanned
  and \<open>n = num_remaining\<close>.\<close>

definition searching :: "nat \<Rightarrow> nat \<Rightarrow> nat \<Rightarrow> int \<Rightarrow> int \<Rightarrow> workspace \<Rightarrow> bool" where
  "searching nr nc c i n w \<longleftrightarrow>
     matching nr nc c w \<and> c < nr \<and> rem_ok nc n w \<and> rows_ok nr c w \<and>
     0 \<le> i \<and> nat i < nr \<and> \<not> SR w ! nat i \<and>
     (i = int c \<or> (nat i < c \<and> SC w ! nat (col4row w ! nat i) \<and> SR w ! c)) \<and>
     (\<forall>j<nc. SC w ! j \<longrightarrow>
        row4col w ! j \<noteq> - 1 \<and> (row4col w ! j = i \<or> SR w ! nat (row4col w ! j))) \<and>
     (\<forall>j<nc. \<not> SC w ! j \<longrightarrow> shortestPathCosts w ! j = PInf \<or>
        (0 \<le> path w ! j \<and> nat (path w ! j) < nr \<and> SR w ! nat (path w ! j))) \<and>
     (\<exists>rank. tree nr nc c rank w \<and> (\<forall>j<nc. SC w ! j \<longrightarrow> rank j < nc - nat n))"

text \<open>The state in which \<open>augmenting_path\<close> returns a sink.\<close>

definition found :: "nat \<Rightarrow> nat \<Rightarrow> nat \<Rightarrow> int \<Rightarrow> workspace \<Rightarrow> bool" where
  "found nr nc c sink w \<longleftrightarrow>
     matching nr nc c w \<and> c < nr \<and> rows_ok nr c w \<and> SR w ! c \<and>
     0 \<le> sink \<and> nat sink < nc \<and> row4col w ! nat sink = - 1 \<and> SC w ! nat sink \<and>
     (\<forall>j<nc. SC w ! j \<longrightarrow>
        j = nat sink \<or> (row4col w ! j \<noteq> - 1 \<and> SR w ! nat (row4col w ! j))) \<and>
     (\<exists>rank. tree nr nc c rank w)"

subsection \<open>Removing an entry of \<open>remaining\<close>\<close>

lemma rem_ok_remove:
  assumes ok: "rem_ok nc n w" and ix: "0 \<le> index" "index < n"
    and len: "length (remaining w) = nc" "length (SC w) = nc"
    and w': "SC w' = (SC w)[nat (remaining w ! nat index) := True]"
            "remaining w' = (remaining w)[nat index := remaining w ! nat (n - 1)]"
  shows "rem_ok nc (n - 1) w'"
proof -
  let ?r = "remaining w" and ?x = "nat index" and ?l = "nat (n - 1)"
  let ?j = "nat (?r ! ?x)"
  from ok have n: "0 \<le> n" "nat n \<le> nc"
    and rng: "\<And>k. k < nat n \<Longrightarrow> 0 \<le> ?r ! k \<and> nat (?r ! k) < nc \<and> \<not> SC w ! nat (?r ! k)"
    and dist: "\<And>k k'. k < nat n \<Longrightarrow> k' < nat n \<Longrightarrow> k \<noteq> k' \<Longrightarrow> ?r ! k \<noteq> ?r ! k'"
    and cov: "\<And>j. j < nc \<Longrightarrow> \<not> SC w ! j \<Longrightarrow> \<exists>k<nat n. ?r ! k = int j"
    unfolding rem_ok_def by blast+
  from ix n have x: "?x < nat n" and l: "?l < nat n" "nat n = Suc ?l" by auto
  have r': "remaining w' ! k = (if k = ?x then ?r ! ?l else ?r ! k)" if "k < nat n" for k
    using that n len w' by (auto simp: nth_list_update)
  have sc': "SC w' ! k = (k = ?j \<or> SC w ! k)" if "k < nc" for k
    using that len w' by (cases "k = ?j") simp_all
  have src: "\<exists>k'<nat n. remaining w' ! k = ?r ! k' \<and> k' \<noteq> ?x" if "k < ?l" for k
  proof (cases "k = ?x")
    case True
    with that r'[of k] l x have "remaining w' ! k = ?r ! ?l \<and> ?l \<noteq> ?x" by auto
    with l show ?thesis by blast
  next
    case False
    with that r'[of k] l have "remaining w' ! k = ?r ! k \<and> k \<noteq> ?x \<and> k < nat n" by auto
    then show ?thesis by blast
  qed
  have inj: "nat (?r ! k) \<noteq> ?j" if "k < nat n" "k \<noteq> ?x" for k
    using dist[OF that(1) x that(2)] rng[OF that(1)] rng[OF x] by auto
  have a: "0 \<le> remaining w' ! k \<and> nat (remaining w' ! k) < nc \<and>
        \<not> SC w' ! nat (remaining w' ! k)" if "k < ?l" for k
  proof -
    from src[OF that] obtain k' where k': "k' < nat n" "remaining w' ! k = ?r ! k'" "k' \<noteq> ?x"
      by blast
    with rng[OF k'(1)] inj[OF k'(1,3)] sc'[of "nat (?r ! k')"] show ?thesis by simp
  qed
  have b: "remaining w' ! k \<noteq> remaining w' ! k'" if "k < ?l" "k' < ?l" "k \<noteq> k'" for k k'
  proof -
    from that l have kn: "k < nat n" "k' < nat n" "k \<noteq> ?l" "k' \<noteq> ?l" by auto
    show ?thesis
      using r'[OF kn(1)] r'[OF kn(2)] dist[OF kn(1,2)] dist[OF l(1) kn(1)] dist[OF l(1) kn(2)]
        that(3) kn(3,4)
      by (auto split: if_splits)
  qed
  have c: "\<exists>k<?l. remaining w' ! k = int j" if "j < nc" "\<not> SC w' ! j" for j
  proof -
    from that sc'[OF that(1)] have "j \<noteq> ?j" "\<not> SC w ! j" by auto
    from cov[OF that(1) this(2)] obtain k where k: "k < nat n" "?r ! k = int j" by blast
    with \<open>j \<noteq> ?j\<close> have kx: "k \<noteq> ?x" by auto
    show ?thesis
    proof (cases "k = ?l")
      case True
      with kx x l have "?x < ?l" by auto
      moreover from r'[OF x] k True have "remaining w' ! ?x = int j" by simp
      ultimately show ?thesis by blast
    next
      case False
      with k l have "k < ?l" by auto
      moreover from r'[OF k(1)] kx k have "remaining w' ! k = int j" by simp
      ultimately show ?thesis by blast
    qed
  qed
  from ix n have "0 \<le> n - 1" "nat (n - 1) \<le> nc" by auto
  with a b c show ?thesis unfolding rem_ok_def by blast
qed


subsection \<open>What a scan does to the workspace\<close>

lemma chosen_cong:
  assumes "\<And>it. 0 \<le> it \<Longrightarrow> it < k \<Longrightarrow> val it = val' it"
    and "chosen val unm k lowest index"
  shows "chosen val' unm k lowest index"
proof (cases "index = - 1")
  case True
  have "chosen val' unm k PInf (- 1)"
  proof (rule chosenI_none)
    fix it assume it: "0 \<le> it" "it < k"
    from chosen_none(2)[OF assms(2)[unfolded True] it] assms(1)[OF it]
    show "val' it = NaN \<or> val' it = PInf \<and> \<not> unm it" by simp
  qed
  with chosen_none_low[OF assms(2)[unfolded True]] True show ?thesis by simp
next
  case False
  note s = chosen_some[OF assms(2) False]
  note l = chosen_low[OF assms(2)]
  show ?thesis
  proof (rule chosenI_some)
    show "lowest \<noteq> NaN" by (rule l(1))
    show "0 \<le> index" "index < k" by (rule s(1), rule s(2))
    show "val' index = lowest" using s(3) assms(1)[OF s(1,2)] by simp
    show "\<not> dless (val' it) lowest" if "0 \<le> it" "it < k" for it
      using l(2)[OF that] assms(1)[OF that] by simp
    show "it \<le> index \<and> unm index" if "0 \<le> it" "it < k" "deq (val' it) lowest" "unm it" for it
      using s(4)[OF that(1,2)] that(3,4) assms(1)[OF that(1,2)] by simp
    show "\<not> deq (val' it) lowest" if "\<not> unm index" "0 \<le> it" "it < index" for it
    proof -
      from that s(2) have "it < k" by simp
      with s(5)[OF that] assms(1)[OF that(2) this] show ?thesis by simp
    qed
  qed
qed

lemma scan_loop_effect:
  assumes "for_loop 0 n (scan_step T cost m i) (w, PInf, - 1) = Some (w1, lowest, index)"
    and "0 \<le> n"
  obtains P S where
    "w1 = w\<lparr>path := P, shortestPathCosts := S\<rparr>" and
    "length P = length (path w)" and "length S = length (shortestPathCosts w)" and
    "\<And>j. 0 \<le> j \<Longrightarrow>
       (S ! nat j = shortestPathCosts w ! nat j \<and> P ! nat j = path w ! nat j) \<or>
       (visited w n j \<and> P ! nat j = i \<and> S ! nat j = reduced T cost w m i j \<and>
        dless (S ! nat j) (shortestPathCosts w ! nat j))" and
    "\<And>j. 0 \<le> j \<Longrightarrow> \<not> visited w n j \<Longrightarrow>
       S ! nat j = shortestPathCosts w ! nat j \<and> P ! nat j = path w ! nat j" and
    "\<And>it. 0 \<le> it \<Longrightarrow> it < n \<Longrightarrow> scan_reads T cost w i it \<and>
       S ! nat (remaining w ! nat it) = scanned T cost w m i (remaining w ! nat it)" and
    "chosen (\<lambda>it. S ! nat (remaining w ! nat it))
            (\<lambda>it. row4col w ! nat (remaining w ! nat it) = - 1) n lowest index"
proof -
  from scan_loop_inv[OF assms] obtain P S where
    w1: "w1 = w\<lparr>path := P, shortestPathCosts := S\<rparr>" and
    lP: "length P = length (path w)" and lS: "length S = length (shortestPathCosts w)" and
    S: "\<And>j. 0 \<le> j \<Longrightarrow> S ! nat j =
           (if visited w n j then scanned T cost w m i j else shortestPathCosts w ! nat j)" and
    P: "\<And>j. 0 \<le> j \<Longrightarrow> P ! nat j =
           (if visited w n j \<and> dless (reduced T cost w m i j) (shortestPathCosts w ! nat j)
            then i else path w ! nat j)" and
    reads: "\<forall>it. 0 \<le> it \<and> it < n \<longrightarrow> scan_reads T cost w i it" and
    ch: "chosen (\<lambda>it. scanned T cost w m i (remaining w ! nat it))
            (\<lambda>it. row4col w ! nat (remaining w ! nat it) = - 1) n lowest index"
    unfolding scan_inv_def by auto
  have val: "S ! nat (remaining w ! nat it) = scanned T cost w m i (remaining w ! nat it)"
    if "0 \<le> it" "it < n" for it
    using S[OF scan_inv_visited(1)[OF reads that]] scan_inv_visited(2)[OF reads that] by simp
  show ?thesis
  proof (rule that[OF w1 lP lS])
    fix j :: int assume j: "0 \<le> j"
    show "(S ! nat j = shortestPathCosts w ! nat j \<and> P ! nat j = path w ! nat j) \<or>
       (visited w n j \<and> P ! nat j = i \<and> S ! nat j = reduced T cost w m i j \<and>
        dless (S ! nat j) (shortestPathCosts w ! nat j))"
      using S[OF j] P[OF j] by (auto simp: scanned_def relax_def)
    show "\<not> visited w n j \<Longrightarrow>
       S ! nat j = shortestPathCosts w ! nat j \<and> P ! nat j = path w ! nat j"
      using S[OF j] P[OF j] by simp
  next
    fix it :: int assume it: "0 \<le> it" "it < n"
    with reads val[OF it]
    show "scan_reads T cost w i it \<and>
       S ! nat (remaining w ! nat it) = scanned T cost w m i (remaining w ! nat it)" by simp
  next
    show "chosen (\<lambda>it. S ! nat (remaining w ! nat it))
            (\<lambda>it. row4col w ! nat (remaining w ! nat it) = - 1) n lowest index"
      by (rule chosen_cong[OF _ ch]) (simp add: val)
  qed
qed


subsection \<open>One round of the search\<close>

lemma search_step_unfold:
  assumes "search_step T cost (m, i, n, w) = Some r"
  obtains w1 lowest index where
    "0 \<le> i" and "nat i < length (SR w)" and
    "for_loop 0 n (scan_step T cost m i) (w\<lparr>SR := (SR w)[nat i := True]\<rparr>, PInf, - 1) =
       Some (w1, lowest, index)" and
    "lowest = PInf \<longrightarrow> r = Inl (- 1, lowest, w1)" and
    "lowest \<noteq> PInf \<longrightarrow>
       0 \<le> index \<and> nat index < length (remaining w1) \<and>
       0 \<le> remaining w1 ! nat index \<and>
       nat (remaining w1 ! nat index) < length (row4col w1) \<and>
       nat (remaining w1 ! nat index) < length (SC w1) \<and>
       0 \<le> n - 1 \<and> nat (n - 1) < length (remaining w1) \<and>
       r = (if row4col w1 ! nat (remaining w1 ! nat index) = - 1
            then Inl (remaining w1 ! nat index, lowest,
                   w1\<lparr>SC := (SC w1)[nat (remaining w1 ! nat index) := True],
                      remaining := (remaining w1)[nat index := remaining w1 ! nat (n - 1)]\<rparr>)
            else Inr (lowest, row4col w1 ! nat (remaining w1 ! nat index), n - 1,
                   w1\<lparr>SC := (SC w1)[nat (remaining w1 ! nat index) := True],
                      remaining := (remaining w1)[nat index := remaining w1 ! nat (n - 1)]\<rparr>))"
proof -
  from assms[unfolded search_step_def prod.case] obtain sr x where
    sr: "wr (SR w) i True = Some sr" and
    loop: "for_loop 0 n (scan_step T cost m i) (w\<lparr>SR := sr\<rparr>, PInf, - 1) = Some x" and
    rest: "(case x of (w1, lowest, index) \<Rightarrow>
        if deq lowest PInf then Some (Inl (- 1, lowest, w1))
        else do {
          j \<leftarrow> rd (remaining w1) index;
          r4c \<leftarrow> rd (row4col w1) j;
          sc \<leftarrow> wr (SC w1) j True;
          l \<leftarrow> rd (remaining w1) (n - 1);
          rem \<leftarrow> wr (remaining w1) index l;
          let w2 = w1\<lparr> SC := sc, remaining := rem \<rparr>;
          Some (if r4c = - 1 then Inl (j, lowest, w2)
                else Inr (lowest, r4c, n - 1, w2))
        }) = Some r"
    by (elim bindE) (rule that; assumption)
  obtain w1 lowest index where x: "x = (w1, lowest, index)" by (cases x)
  from sr have i: "0 \<le> i" "nat i < length (SR w)" "sr = (SR w)[nat i := True]"
    by (auto simp: wr_Some)
  show ?thesis
  proof (rule that[OF i(1,2) loop[unfolded i(3) x]]; rule impI)
    assume "lowest = PInf"
    with rest x show "r = Inl (- 1, lowest, w1)" by simp
  next
    assume "lowest \<noteq> PInf"
    with rest x have "do {
          j \<leftarrow> rd (remaining w1) index;
          r4c \<leftarrow> rd (row4col w1) j;
          sc \<leftarrow> wr (SC w1) j True;
          l \<leftarrow> rd (remaining w1) (n - 1);
          rem \<leftarrow> wr (remaining w1) index l;
          Some (if r4c = - 1 then Inl (j, lowest, w1\<lparr> SC := sc, remaining := rem \<rparr>)
                else Inr (lowest, r4c, n - 1, w1\<lparr> SC := sc, remaining := rem \<rparr>))
        } = Some r" by (simp add: Let_def)
    then obtain j r4c sc l rem where
      "rd (remaining w1) index = Some j" "rd (row4col w1) j = Some r4c"
      "wr (SC w1) j True = Some sc" "rd (remaining w1) (n - 1) = Some l"
      "wr (remaining w1) index l = Some rem"
      "Some (if r4c = - 1 then Inl (j, lowest, w1\<lparr> SC := sc, remaining := rem \<rparr>)
                else Inr (lowest, r4c, n - 1, w1\<lparr> SC := sc, remaining := rem \<rparr>)) = Some r"
      by (elim bindE) (rule that; assumption)
    then show "0 \<le> index \<and> nat index < length (remaining w1) \<and>
       0 \<le> remaining w1 ! nat index \<and>
       nat (remaining w1 ! nat index) < length (row4col w1) \<and>
       nat (remaining w1 ! nat index) < length (SC w1) \<and>
       0 \<le> n - 1 \<and> nat (n - 1) < length (remaining w1) \<and>
       r = (if row4col w1 ! nat (remaining w1 ! nat index) = - 1
            then Inl (remaining w1 ! nat index, lowest,
                   w1\<lparr>SC := (SC w1)[nat (remaining w1 ! nat index) := True],
                      remaining := (remaining w1)[nat index := remaining w1 ! nat (n - 1)]\<rparr>)
            else Inr (lowest, row4col w1 ! nat (remaining w1 ! nat index), n - 1,
                   w1\<lparr>SC := (SC w1)[nat (remaining w1 ! nat index) := True],
                      remaining := (remaining w1)[nat index := remaining w1 ! nat (n - 1)]\<rparr>))"
      by (auto simp: rd_Some wr_Some)
  qed
qed


lemma matching_frame:
  assumes "matching nr nc c w" and "lens nr nc w'"
    and "col4row w' = col4row w" and "row4col w' = row4col w"
  shows "matching nr nc c w'"
  using assms unfolding matching_def by simp

lemma matchingD:
  assumes "matching nr nc c w"
  shows "lens nr nc w" and "c \<le> nr"
    and "\<And>i. i < c \<Longrightarrow> 0 \<le> col4row w ! i \<and> nat (col4row w ! i) < nc \<and>
             row4col w ! nat (col4row w ! i) = int i"
    and "\<And>i. i < nr \<Longrightarrow> \<not> i < c \<Longrightarrow> col4row w ! i = - 1"
    and "\<And>j. j < nc \<Longrightarrow> row4col w ! j \<noteq> - 1 \<Longrightarrow>
             0 \<le> row4col w ! j \<and> nat (row4col w ! j) < c \<and>
             col4row w ! nat (row4col w ! j) = int j"
proof -
  from assms show "lens nr nc w" "c \<le> nr" unfolding matching_def by blast+
  then have cn: "c \<le> nr" by simp
  from assms have a: "\<forall>i<nr. if i < c
        then 0 \<le> col4row w ! i \<and> nat (col4row w ! i) < nc \<and>
             row4col w ! nat (col4row w ! i) = int i
        else col4row w ! i = - 1" unfolding matching_def by blast
  show "0 \<le> col4row w ! i \<and> nat (col4row w ! i) < nc \<and>
             row4col w ! nat (col4row w ! i) = int i" if "i < c" for i
  proof -
    from that cn have "i < nr" by simp
    with a that show ?thesis by (auto split: if_splits)
  qed
  show "col4row w ! i = - 1" if "i < nr" "\<not> i < c" for i
    using a that by (auto split: if_splits)
  from assms show "\<And>j. j < nc \<Longrightarrow> row4col w ! j \<noteq> - 1 \<Longrightarrow>
             0 \<le> row4col w ! j \<and> nat (row4col w ! j) < c \<and>
             col4row w ! nat (row4col w ! j) = int j"
    unfolding matching_def by blast
qed

lemma search_step_searching:
  assumes inv: "searching nr nc c i n w" and step: "search_step T cost (m, i, n, w) = Some r"
  shows "case r of Inl (sink, m', w') \<Rightarrow> sink = - 1 \<or> found nr nc c sink w'
         | Inr (m', i', n', w') \<Rightarrow> searching nr nc c i' n' w'"
proof -
  from inv have M: "matching nr nc c w" and c: "c < nr" and R: "rem_ok nc n w"
    and RO: "\<And>k. k < nr \<Longrightarrow> SR w ! k \<Longrightarrow> k = c \<or> (k < c \<and> SC w ! nat (col4row w ! k))"
    and i: "0 \<le> i" "nat i < nr" "\<not> SR w ! nat i"
    and ic: "i = int c \<or> (nat i < c \<and> SC w ! nat (col4row w ! nat i) \<and> SR w ! c)"
    and SCm: "\<And>k. k < nc \<Longrightarrow> SC w ! k \<Longrightarrow>
        row4col w ! k \<noteq> - 1 \<and> (row4col w ! k = i \<or> SR w ! nat (row4col w ! k))"
    and NP: "\<And>k. k < nc \<Longrightarrow> \<not> SC w ! k \<Longrightarrow> shortestPathCosts w ! k = PInf \<or>
        (0 \<le> path w ! k \<and> nat (path w ! k) < nr \<and> SR w ! nat (path w ! k))"
    unfolding searching_def rows_ok_def by blast+
  from inv obtain rank where
    T: "\<And>k. k < nc \<Longrightarrow> SC w ! k \<Longrightarrow>
        0 \<le> path w ! k \<and> nat (path w ! k) < nr \<and> SR w ! nat (path w ! k) \<and>
        (path w ! k = int c \<or>
         (SC w ! nat (col4row w ! nat (path w ! k)) \<and>
          rank (nat (col4row w ! nat (path w ! k))) < rank k))"
    and rk: "\<And>k. k < nc \<Longrightarrow> SC w ! k \<Longrightarrow> rank k < nc - nat n"
    unfolding searching_def tree_def by blast
  note Md = matchingD[OF M]
  from Md(1) have L: "length (u w) = nr" "length (v w) = nc" "length (shortestPathCosts w) = nc"
     "length (path w) = nc" "length (col4row w) = nr" "length (row4col w) = nc"
     "length (SR w) = nr" "length (SC w) = nc" "length (remaining w) = nc"
    unfolding lens_def by blast+
  from R have n0: "0 \<le> n" and nn: "nat n \<le> nc"
    and rng: "\<And>k. k < nat n \<Longrightarrow> 0 \<le> remaining w ! k \<and> nat (remaining w ! k) < nc \<and>
        \<not> SC w ! nat (remaining w ! k)"
    unfolding rem_ok_def by blast+
  let ?sr = "(SR w)[nat i := True]"
  let ?w0 = "w\<lparr>SR := ?sr\<rparr>"
  from step obtain w1 lowest index where
    loop: "for_loop 0 n (scan_step T cost m i) (?w0, PInf, - 1) = Some (w1, lowest, index)" and
    stop: "lowest = PInf \<longrightarrow> r = Inl (- 1, lowest, w1)" and
    go: "lowest \<noteq> PInf \<longrightarrow>
       0 \<le> index \<and> nat index < length (remaining w1) \<and>
       0 \<le> remaining w1 ! nat index \<and>
       nat (remaining w1 ! nat index) < length (row4col w1) \<and>
       nat (remaining w1 ! nat index) < length (SC w1) \<and>
       0 \<le> n - 1 \<and> nat (n - 1) < length (remaining w1) \<and>
       r = (if row4col w1 ! nat (remaining w1 ! nat index) = - 1
            then Inl (remaining w1 ! nat index, lowest,
                   w1\<lparr>SC := (SC w1)[nat (remaining w1 ! nat index) := True],
                      remaining := (remaining w1)[nat index := remaining w1 ! nat (n - 1)]\<rparr>)
            else Inr (lowest, row4col w1 ! nat (remaining w1 ! nat index), n - 1,
                   w1\<lparr>SC := (SC w1)[nat (remaining w1 ! nat index) := True],
                      remaining := (remaining w1)[nat index := remaining w1 ! nat (n - 1)]\<rparr>))"
    by (rule search_step_unfold) (rule that; assumption)
  obtain P S where
    w1: "w1 = ?w0\<lparr>path := P, shortestPathCosts := S\<rparr>" and
    lP: "length P = nc" and lS: "length S = nc" and
    eff: "\<And>j. 0 \<le> j \<Longrightarrow>
       (S ! nat j = shortestPathCosts w ! nat j \<and> P ! nat j = path w ! nat j) \<or>
       (visited ?w0 n j \<and> P ! nat j = i \<and> S ! nat j \<noteq> PInf)" and
    unv: "\<And>j. 0 \<le> j \<Longrightarrow> \<not> visited ?w0 n j \<Longrightarrow>
       S ! nat j = shortestPathCosts w ! nat j \<and> P ! nat j = path w ! nat j" and
    ch: "chosen (\<lambda>it. S ! nat (remaining w ! nat it))
            (\<lambda>it. row4col w ! nat (remaining w ! nat it) = - 1) n lowest index"
  proof -
    from scan_loop_effect[OF loop n0] obtain P S where
      a: "w1 = ?w0\<lparr>path := P, shortestPathCosts := S\<rparr>"
        "length P = length (path ?w0)" "length S = length (shortestPathCosts ?w0)" and
      b: "\<And>j. 0 \<le> j \<Longrightarrow>
       (S ! nat j = shortestPathCosts ?w0 ! nat j \<and> P ! nat j = path ?w0 ! nat j) \<or>
       (visited ?w0 n j \<and> P ! nat j = i \<and> S ! nat j = reduced T cost ?w0 m i j \<and>
        dless (S ! nat j) (shortestPathCosts ?w0 ! nat j))" and
      c: "\<And>j. 0 \<le> j \<Longrightarrow> \<not> visited ?w0 n j \<Longrightarrow>
       S ! nat j = shortestPathCosts ?w0 ! nat j \<and> P ! nat j = path ?w0 ! nat j" and
      d: "chosen (\<lambda>it. S ! nat (remaining ?w0 ! nat it))
            (\<lambda>it. row4col ?w0 ! nat (remaining ?w0 ! nat it) = - 1) n lowest index"
      by blast
    show ?thesis
    proof (rule that[where P = P and S = S])
      show "w1 = ?w0\<lparr>path := P, shortestPathCosts := S\<rparr>" by (rule a(1))
      show "length P = nc" "length S = nc" using a(2,3) L by simp_all
      show "(S ! nat j = shortestPathCosts w ! nat j \<and> P ! nat j = path w ! nat j) \<or>
       (visited ?w0 n j \<and> P ! nat j = i \<and> S ! nat j \<noteq> PInf)" if "0 \<le> j" for j
      proof -
        from b[OF that] consider
          "S ! nat j = shortestPathCosts ?w0 ! nat j \<and> P ! nat j = path ?w0 ! nat j" |
          "visited ?w0 n j \<and> P ! nat j = i \<and> dless (S ! nat j) (shortestPathCosts ?w0 ! nat j)"
          by blast
        then show ?thesis
        proof cases
          case 1
          then show ?thesis by simp
        next
          case 2
          then have "S ! nat j \<noteq> PInf" by (cases "S ! nat j") auto
          with 2 show ?thesis by simp
        qed
      qed
      show "\<And>j. 0 \<le> j \<Longrightarrow> \<not> visited ?w0 n j \<Longrightarrow>
       S ! nat j = shortestPathCosts w ! nat j \<and> P ! nat j = path w ! nat j"
        using c by simp
      show "chosen (\<lambda>it. S ! nat (remaining w ! nat it))
            (\<lambda>it. row4col w ! nat (remaining w ! nat it) = - 1) n lowest index"
        using d by simp
    qed
  qed
  show ?thesis
  proof (cases "lowest = PInf")
    case True
    with stop show ?thesis by simp
  next
    case False
    from ch False have ne: "index \<noteq> - 1" by (auto dest: chosen_none_low)
    note s = chosen_some[OF ch ne]
    let ?jx = "remaining w ! nat index"
    let ?j = "nat ?jx"
    from s(1,2) have idx: "nat index < nat n" by simp
    from rng[OF idx] have j: "0 \<le> ?jx" "?j < nc" "\<not> SC w ! ?j" by simp_all
    from s(3) False have Sj: "S ! ?j \<noteq> PInf" by simp
    let ?sc = "(SC w)[?j := True]"
    let ?rem = "(remaining w)[nat index := remaining w ! nat (n - 1)]"
    let ?w2 = "w\<lparr>SR := ?sr, path := P, shortestPathCosts := S, SC := ?sc, remaining := ?rem\<rparr>"
    let ?r4c = "row4col w ! ?j"
    from go False w1
    have r: "r = (if ?r4c = - 1 then Inl (?jx, lowest, ?w2) else Inr (lowest, ?r4c, n - 1, ?w2))"
      by simp
    have srn: "?sr ! k = (k = nat i \<or> SR w ! k)" if "k < nr" for k
      using that i L by (cases "k = nat i") simp_all
    have scn: "?sc ! k = (k = ?j \<or> SC w ! k)" if "k < nc" for k
      using that j L by (cases "k = ?j") simp_all
    have vis: "\<not> visited ?w0 n (int k)" if "k < nc" "SC w ! k" for k
    proof
      assume "visited ?w0 n (int k)"
      then obtain it where "0 \<le> it" "it < n" "remaining w ! nat it = int k"
        by (auto simp: visited_def)
      with rng[of "nat it"] that show False by auto
    qed
    have old: "S ! k = shortestPathCosts w ! k \<and> P ! k = path w ! k" if "k < nc" "SC w ! k" for k
      using unv[OF _ vis[OF that]] by simp
    have L2: "lens nr nc ?w2" using L lP lS by (simp add: lens_def)
    have M2: "matching nr nc c ?w2" by (rule matching_frame[OF M L2]) simp_all
    have colc: "nat (col4row w ! k) < nc" if "k < c" for k using Md(3)[OF that] by simp
    have ic': "i = int c \<or> (nat i < c \<and> ?sc ! nat (col4row w ! nat i))"
      using ic scn colc by auto
    have src: "?sr ! c"
      using ic srn[OF c] by auto
    have RO2: "rows_ok nr c ?w2"
      unfolding rows_ok_def
    proof (intro allI impI)
      fix k assume k: "k < nr" "SR ?w2 ! k"
      then have "k = nat i \<or> SR w ! k" using srn[OF k(1)] by simp
      then show "k = c \<or> (k < c \<and> SC ?w2 ! nat (col4row ?w2 ! k))"
      proof
        assume "k = nat i"
        with ic' i show ?thesis by auto
      next
        assume "SR w ! k"
        from RO[OF k(1) this] scn colc show ?thesis by auto
      qed
    qed
    have SCm2: "row4col w ! k \<noteq> - 1 \<and> ?sr ! nat (row4col w ! k)"
      if "k < nc" "SC w ! k" for k
    proof -
      from SCm[OF that] have a: "row4col w ! k \<noteq> - 1"
        and b: "row4col w ! k = i \<or> SR w ! nat (row4col w ! k)" by simp_all
      from Md(5)[OF that(1) a] Md(2) have "nat (row4col w ! k) < nr" by simp
      from srn[OF this] b a show ?thesis by auto
    qed
    have pj: "0 \<le> P ! ?j \<and> nat (P ! ?j) < nr \<and> ?sr ! nat (P ! ?j)"
    proof -
      from eff[OF j(1)] consider
        "S ! ?j = shortestPathCosts w ! ?j \<and> P ! ?j = path w ! ?j" | "P ! ?j = i" by blast
      then show ?thesis
      proof cases
        case 1
        with Sj NP[OF j(2,3)] have a: "0 \<le> path w ! ?j" "nat (path w ! ?j) < nr"
          "SR w ! nat (path w ! ?j)" by simp_all
        with 1 srn[OF a(2)] show ?thesis by simp
      next
        case 2
        with i srn[OF i(2)] show ?thesis by simp
      qed
    qed
    define rank' where "rank' = rank(?j := nc - nat n)"
    have T2: "tree nr nc c rank' ?w2"
      unfolding tree_def
    proof (intro allI impI)
      fix k assume k: "k < nc" "SC ?w2 ! k"
      show "0 \<le> path ?w2 ! k \<and> nat (path ?w2 ! k) < nr \<and> SR ?w2 ! nat (path ?w2 ! k) \<and>
        (path ?w2 ! k = int c \<or>
         (SC ?w2 ! nat (col4row ?w2 ! nat (path ?w2 ! k)) \<and>
          rank' (nat (col4row ?w2 ! nat (path ?w2 ! k))) < rank' k))"
      proof (cases "k = ?j")
        case True
        let ?p = "nat (P ! ?j)"
        from pj have p: "0 \<le> P ! ?j" "?p < nr" "?sr ! ?p" by simp_all
        have "P ! ?j = int c \<or> (?sc ! nat (col4row w ! ?p) \<and> rank' (nat (col4row w ! ?p)) < rank' ?j)"
        proof (cases "?p = c")
          case True
          with p(1) have "P ! ?j = int c" by auto
          then show ?thesis by simp
        next
          case pc: False
          from p(3) srn[OF p(2)] have "?p = nat i \<or> SR w ! ?p" by simp
          then have q: "?p < c \<and> SC w ! nat (col4row w ! ?p)"
          proof
            assume "?p = nat i"
            with ic pc show ?thesis by auto
          next
            assume "SR w ! ?p"
            from RO[OF p(2) this] pc show ?thesis by simp
          qed
          then have qc: "nat (col4row w ! ?p) < nc" using colc by simp
          from q j(3) have "nat (col4row w ! ?p) \<noteq> ?j" by auto
          with rk[OF qc] q scn[OF qc] show ?thesis by (simp add: rank'_def)
        qed
        with p True show ?thesis by simp
      next
        case False
        with k scn[OF k(1)] have sck: "SC w ! k" by simp
        from T[OF k(1) sck] have a: "0 \<le> path w ! k" "nat (path w ! k) < nr"
          "SR w ! nat (path w ! k)" and
          b: "path w ! k = int c \<or>
         (SC w ! nat (col4row w ! nat (path w ! k)) \<and>
          rank (nat (col4row w ! nat (path w ! k))) < rank k)" by simp_all
        let ?q = "nat (col4row w ! nat (path w ! k))"
        have "path w ! k = int c \<or> (?sc ! ?q \<and> rank' ?q < rank' k)"
        proof (cases "path w ! k = int c")
          case True then show ?thesis by simp
        next
          case nc': False
          with b have b': "SC w ! ?q" "rank ?q < rank k" by simp_all
          from RO[OF a(2,3)] nc' a(1) have "nat (path w ! k) < c" by auto
          from colc[OF this] have ql: "?q < nc" .
          from b'(1) j(3) have "?q \<noteq> ?j" by auto
          with b' False scn[OF ql] show ?thesis by (simp add: rank'_def)
        qed
        with a old[OF k(1) sck] srn[OF a(2)] show ?thesis by simp
      qed
    qed
    show ?thesis
    proof (cases "?r4c = - 1")
      case True
      have "found nr nc c ?jx ?w2"
        unfolding found_def
      proof (intro conjI)
        show "matching nr nc c ?w2" by (rule M2)
        show "c < nr" by (rule c)
        show "rows_ok nr c ?w2" by (rule RO2)
        show "SR ?w2 ! c" using src by simp
        show "0 \<le> ?jx" "?j < nc" using j by simp_all
        show "row4col ?w2 ! ?j = - 1" using True by simp
        show "SC ?w2 ! ?j" using scn[OF j(2)] by simp
        show "\<forall>k<nc. SC ?w2 ! k \<longrightarrow>
          k = ?j \<or> (row4col ?w2 ! k \<noteq> - 1 \<and> SR ?w2 ! nat (row4col ?w2 ! k))"
          using scn SCm2 by auto
        show "\<exists>rank. tree nr nc c rank ?w2" using T2 by blast
      qed
      with r True show ?thesis by simp
    next
      case False
      from Md(5)[OF j(2) False] have r4: "0 \<le> ?r4c" "nat ?r4c < c" "col4row w ! nat ?r4c = ?jx"
        using j(1) by simp_all
      from r4(2) c have r4n: "nat ?r4c < nr" by simp
      have nsr: "\<not> ?sr ! nat ?r4c"
      proof
        assume "?sr ! nat ?r4c"
        with srn[OF r4n] have "nat ?r4c = nat i \<or> SR w ! nat ?r4c" by simp
        then show False
        proof
          assume e: "nat ?r4c = nat i"
          with ic r4(2,3) j(3) show False by auto
        next
          assume "SR w ! nat ?r4c"
          from RO[OF r4n this] r4(2,3) j(3) show False by auto
        qed
      qed
      have R2: "rem_ok nc (n - 1) ?w2"
        by (rule rem_ok_remove[OF R s(1,2)]) (simp_all add: L)
      have "searching nr nc c ?r4c (n - 1) ?w2"
        unfolding searching_def
      proof (intro conjI)
        show "matching nr nc c ?w2" by (rule M2)
        show "c < nr" by (rule c)
        show "rem_ok nc (n - 1) ?w2" by (rule R2)
        show "rows_ok nr c ?w2" by (rule RO2)
        show "0 \<le> ?r4c" "nat ?r4c < nr" by (rule r4(1), rule r4n)
        show "\<not> SR ?w2 ! nat ?r4c" using nsr by simp
        show "?r4c = int c \<or> (nat ?r4c < c \<and> SC ?w2 ! nat (col4row ?w2 ! nat ?r4c) \<and> SR ?w2 ! c)"
          using r4 scn[OF j(2)] src by simp
        show "\<forall>k<nc. SC ?w2 ! k \<longrightarrow> row4col ?w2 ! k \<noteq> - 1 \<and>
           (row4col ?w2 ! k = ?r4c \<or> SR ?w2 ! nat (row4col ?w2 ! k))"
          using scn SCm2 False by auto
        show "\<forall>k<nc. \<not> SC ?w2 ! k \<longrightarrow> shortestPathCosts ?w2 ! k = PInf \<or>
           (0 \<le> path ?w2 ! k \<and> nat (path ?w2 ! k) < nr \<and> SR ?w2 ! nat (path ?w2 ! k))"
        proof (intro allI impI)
          fix k assume k: "k < nc" "\<not> SC ?w2 ! k"
          with scn[OF k(1)] have nk: "\<not> SC w ! k" by simp
          from eff[of "int k"] consider
            "S ! k = shortestPathCosts w ! k \<and> P ! k = path w ! k" | "P ! k = i" by auto
          then show "shortestPathCosts ?w2 ! k = PInf \<or>
           (0 \<le> path ?w2 ! k \<and> nat (path ?w2 ! k) < nr \<and> SR ?w2 ! nat (path ?w2 ! k))"
          proof cases
            case 1
            from NP[OF k(1) nk] show ?thesis
            proof
              assume "shortestPathCosts w ! k = PInf"
              with 1 show ?thesis by simp
            next
              assume a: "0 \<le> path w ! k \<and> nat (path w ! k) < nr \<and> SR w ! nat (path w ! k)"
              then have "nat (path w ! k) < nr" by simp
              from srn[OF this] a 1 show ?thesis by simp
            qed
          next
            case 2
            with i srn[OF i(2)] show ?thesis by simp
          qed
        qed
        show "\<exists>rank. tree nr nc c rank ?w2 \<and> (\<forall>k<nc. SC ?w2 ! k \<longrightarrow> rank k < nc - nat (n - 1))"
        proof (intro exI[of _ rank'] conjI allI impI)
          show "tree nr nc c rank' ?w2" by (rule T2)
          fix k assume k: "k < nc" "SC ?w2 ! k"
          from idx nn have lt: "nc - nat n < nc - nat (n - 1)" by auto
          show "rank' k < nc - nat (n - 1)"
          proof (cases "k = ?j")
            case True
            with lt show ?thesis by (simp add: rank'_def)
          next
            case False
            with k scn[OF k(1)] have "SC w ! k" by simp
            from rk[OF k(1) this] lt False show ?thesis by (simp add: rank'_def)
          qed
        qed
      qed
      with r False show ?thesis by simp
    qed
  qed
qed

subsection \<open>The search loop\<close>

lemma search_loop_found:
  assumes "searching nr nc c i n w" and "search_loop T cost (m, i, n, w) = Some (sink, m', w')"
  shows "sink = - 1 \<or> found nr nc c sink w'"
  using assms
proof (induction T cost "(m, i, n, w)" arbitrary: m i n w rule: search_loop.induct)
  case (1 T cost)
  from "1.prems"(2) obtain r where r: "search_step T cost (m, i, n, w) = Some r"
    by (subst (asm) search_loop.simps) (auto split: option.splits)
  note st = search_step_searching[OF "1.prems"(1) r]
  show ?case
  proof (cases r)
    case (Inl x)
    with r "1.prems"(2) have "x = (sink, m', w')"
      by (subst (asm) search_loop.simps) simp
    with st Inl show ?thesis by simp
  next
    case (Inr s')
    obtain m1 i1 n1 w1 where s': "s' = (m1, i1, n1, w1)" by (cases s')
    from r Inr "1.prems"(2) have run: "search_loop T cost (m1, i1, n1, w1) = Some (sink, m', w')"
      by (subst (asm) search_loop.simps) (simp add: s')
    from st Inr s' have "searching nr nc c i1 n1 w1" by simp
    from "1.hyps"[OF r Inr[unfolded s'] this run] show ?thesis .
  qed
qed

text \<open>The view is defined on the working rectangle.\<close>

definition view_defined :: "'a dtype \<Rightarrow> 'a matrix2d \<Rightarrow> nat \<Rightarrow> nat \<Rightarrow> bool" where
  "view_defined T cost nr nc \<longleftrightarrow>
     (\<forall>i j. 0 \<le> i \<and> nat i < nr \<and> 0 \<le> j \<and> nat j < nc \<longrightarrow> get T cost i j \<noteq> None)"

lemma scan_step_total:
  assumes "rd (remaining w1) k = Some j" and "get T cost i j \<noteq> None"
    and "0 \<le> i" and "nat i < length (u w1)" and "0 \<le> j" and "nat j < length (v w1)"
    and "nat j < length (shortestPathCosts w1)" and "nat j < length (path w1)"
    and "nat j < length (row4col w1)"
  shows "\<exists>s'. scan_step T cost m i k (w1, lowest, index) = Some s'"
proof -
  from assms(2) obtain c where c: "get T cost i j = Some c" by auto
  have a: "rd (u w1) i = Some (u w1 ! nat i)" "rd (v w1) j = Some (v w1 ! nat j)"
    "rd (shortestPathCosts w1) j = Some (shortestPathCosts w1 ! nat j)"
    "rd (row4col w1) j = Some (row4col w1 ! nat j)"
    using assms by (simp_all add: rd_def)
  have b: "wr (path w1) j x = Some ((path w1)[nat j := x])"
    "wr (shortestPathCosts w1) j y = Some ((shortestPathCosts w1)[nat j := y])" for x y
    using assms by (simp_all add: wr_def)
  have r: "rd xs j = Some (xs ! nat j)" if "length xs = length (row4col w1)" for xs :: "int list"
    using that assms by (simp add: rd_def)
  have r2: "rd xs j = Some (xs ! nat j)" if "length xs = length (shortestPathCosts w1)" for xs :: "dbl list"
    using that assms by (simp add: rd_def)
  show ?thesis
    unfolding scan_step_def prod.case
    by (simp add: assms(1) c a b Let_def r r2)
qed

lemma scan_loop_total:
  assumes L: "lens nr nc w" and R: "rem_ok nc n w" and V: "view_defined T cost nr nc"
    and i: "0 \<le> i" "nat i < nr"
  shows "\<exists>s'. for_loop 0 n (scan_step T cost m i) (w, lowest, index) = Some s'"
proof -
  let ?I = "\<lambda>(k::int) (s :: workspace \<times> dbl \<times> int). case s of (x, _, _) \<Rightarrow>
       u x = u w \<and> v x = v w \<and> row4col x = row4col w \<and> remaining x = remaining w \<and>
       length (path x) = nc \<and> length (shortestPathCosts x) = nc"
  from R have n: "0 \<le> n" "nat n \<le> nc"
    and rng: "\<And>k. k < nat n \<Longrightarrow> 0 \<le> remaining w ! k \<and> nat (remaining w ! k) < nc"
    unfolding rem_ok_def by blast+
  from L have Ls: "length (u w) = nr" "length (v w) = nc" "length (shortestPathCosts w) = nc"
     "length (path w) = nc" "length (row4col w) = nc" "length (remaining w) = nc"
    unfolding lens_def by blast+
  have "\<exists>s'. for_loop 0 n (scan_step T cost m i) (w, lowest, index) = Some s' \<and> ?I n s'"
  proof (rule for_loop_total[where I = ?I])
    show "?I 0 (w, lowest, index)" using Ls by simp
    show "0 \<le> n" by (rule n)
  next
    fix k t assume k: "0 \<le> k" "k < n" and I: "?I k t"
    obtain x lo ix where t: "t = (x, lo, ix)" by (cases t)
    from k have kn: "nat k < nat n" by simp
    let ?j = "remaining w ! nat k"
    from rng[OF kn] have j: "0 \<le> ?j" "nat ?j < nc" by simp_all
    from I t have x: "u x = u w" "v x = v w" "row4col x = row4col w" "remaining x = remaining w"
       "length (path x) = nc" "length (shortestPathCosts x) = nc" by simp_all
    have rdk: "rd (remaining x) k = Some ?j" using k kn n Ls x by (simp add: rd_def)
    from V i j have g: "get T cost i ?j \<noteq> None" unfolding view_defined_def by blast
    from scan_step_total[OF rdk g i(1) _ j(1), of m lo ix] x Ls i j
    obtain s' where s': "scan_step T cost m i k (x, lo, ix) = Some s'" by auto
    obtain x' lo' ix' where t': "s' = (x', lo', ix')" by (cases s')
    from scan_step_frame[OF s'[unfolded t']] x have "?I (k + 1) s'" by (simp add: t')
    with s' t show "\<exists>t'. scan_step T cost m i k t = Some t' \<and> ?I (k + 1) t'" by blast
  qed
  then show ?thesis by blast
qed

lemma search_step_total:
  assumes inv: "searching nr nc c i n w" and V: "view_defined T cost nr nc"
  shows "\<exists>r. search_step T cost (m, i, n, w) = Some r"
proof -
  from inv have M: "matching nr nc c w" and R: "rem_ok nc n w"
    and i: "0 \<le> i" "nat i < nr"
    unfolding searching_def by blast+
  note L = matchingD(1)[OF M]
  let ?sr = "(SR w)[nat i := True]"
  let ?w0 = "w\<lparr>SR := ?sr\<rparr>"
  from L i have sr: "wr (SR w) i True = Some ?sr" by (simp add: wr_def lens_def)
  from L have L0: "lens nr nc ?w0" by (simp add: lens_def)
  from R have R0: "rem_ok nc n ?w0" by (simp add: rem_ok_def)
  from scan_loop_total[OF L0 R0 V i, of m PInf "- 1"] obtain s where
    loop: "for_loop 0 n (scan_step T cost m i) (?w0, PInf, - 1) = Some s" by blast
  obtain w1 lowest index where s: "s = (w1, lowest, index)" by (cases s)
  from R have n0: "0 \<le> n" and nn: "nat n \<le> nc"
    and rng: "\<And>k. k < nat n \<Longrightarrow> 0 \<le> remaining w ! k \<and> nat (remaining w ! k) < nc"
    unfolding rem_ok_def by blast+
  from scan_loop_effect[OF loop[unfolded s] n0] obtain P S where
    w1: "w1 = ?w0\<lparr>path := P, shortestPathCosts := S\<rparr>" and
    ch: "chosen (\<lambda>it. S ! nat (remaining ?w0 ! nat it))
            (\<lambda>it. row4col ?w0 ! nat (remaining ?w0 ! nat it) = - 1) n lowest index"
    by blast
  show ?thesis
  proof (cases "lowest = PInf")
    case True
    with sr loop s show ?thesis by (simp add: search_step_def)
  next
    case False
    with ch have ne: "index \<noteq> - 1" by (auto dest: chosen_none_low)
    note c = chosen_some(1,2)[OF ch ne]
    from c have idx: "nat index < nat n" by simp
    from rng[OF idx] have j: "0 \<le> remaining w ! nat index" "nat (remaining w ! nat index) < nc"
      by simp_all
    from L have Ls: "length (row4col w) = nc" "length (SC w) = nc" "length (remaining w) = nc"
      unfolding lens_def by blast+
    from c idx nn Ls have a: "rd (remaining w1) index = Some (remaining w ! nat index)"
      "rd (remaining w1) (n - 1) = Some (remaining w ! nat (n - 1))"
      by (simp_all add: rd_def w1)
    from j Ls have b: "rd (row4col w1) (remaining w ! nat index) =
         Some (row4col w ! nat (remaining w ! nat index))"
      "wr (SC w1) (remaining w ! nat index) True =
         Some ((SC w)[nat (remaining w ! nat index) := True])"
      by (simp_all add: rd_def wr_def w1)
    from c idx nn Ls have d: "wr (remaining w1) index x = Some ((remaining w)[nat index := x])" for x
      by (simp add: wr_def w1)
    from False sr loop s a b d show ?thesis by (simp add: search_step_def Let_def)
  qed
qed

lemma search_loop_total:
  assumes "searching nr nc c i n w" and "view_defined T cost nr nc"
  shows "\<exists>res. search_loop T cost (m, i, n, w) = Some res"
  using assms
proof (induction T cost "(m, i, n, w)" arbitrary: m i n w rule: search_loop.induct)
  case (1 T cost)
  from search_step_total[OF "1.prems"] obtain r where
    r: "search_step T cost (m, i, n, w) = Some r" by blast
  note st = search_step_searching[OF "1.prems"(1) r]
  show ?case
  proof (cases r)
    case (Inl x)
    with r have "search_loop T cost (m, i, n, w) = Some x" by (subst search_loop.simps) simp
    then show ?thesis by blast
  next
    case (Inr s')
    obtain m1 i1 n1 w1 where s': "s' = (m1, i1, n1, w1)" by (cases s')
    from st Inr s' have "searching nr nc c i1 n1 w1" by simp
    from "1.hyps"[OF r Inr[unfolded s'] this "1.prems"(2)] obtain res where
      "search_loop T cost (m1, i1, n1, w1) = Some res" by blast
    with r Inr s' have "search_loop T cost (m, i, n, w) = Some res"
      by (subst search_loop.simps) simp
    then show ?thesis by blast
  qed
qed


subsection \<open>\<open>augmenting_path\<close>\<close>

lemma fill_remaining:
  assumes "length r = n"
  shows "\<exists>r'. for_loop 0 (int n) (\<lambda>it rem. wr rem it (int n - it - 1)) r = Some r' \<and>
           length r' = n \<and> (\<forall>k<n. r' ! k = int n - int k - 1)"
proof -
  let ?I = "\<lambda>(k::int) (x :: int list). length x = n \<and> (\<forall>k'<nat k. x ! k' = int n - int k' - 1)"
  have "\<exists>r'. for_loop 0 (int n) (\<lambda>it rem. wr rem it (int n - it - 1)) r = Some r' \<and> ?I (int n) r'"
  proof (rule for_loop_total[where I = ?I])
    show "?I 0 r" using assms by simp
    show "0 \<le> int n" by simp
  next
    fix k :: int and t :: "int list"
    assume k: "0 \<le> k" "k < int n" and I: "?I k t"
    then have w: "wr t k (int n - k - 1) = Some (t[nat k := int n - k - 1])"
      by (simp add: wr_def)
    have "?I (k + 1) (t[nat k := int n - k - 1])"
    proof (intro conjI allI impI)
      show "length (t[nat k := int n - k - 1]) = n" using I by simp
      fix k' assume "k' < nat (k + 1)"
      with k have "k' < nat k \<or> k' = nat k" by auto
      then show "t[nat k := int n - k - 1] ! k' = int n - int k' - 1"
        using I k by (auto simp: nth_list_update)
    qed
    with w show "\<exists>t'. wr t k (int n - k - 1) = Some t' \<and> ?I (k + 1) t'" by blast
  qed
  then show ?thesis by auto
qed

lemma searching_start:
  assumes M: "matching nr nc c w" and c: "c < nr"
    and r': "length r' = nc" "\<forall>k<nc. r' ! k = int nc - int k - 1"
  shows "searching nr nc c (int c) (int nc)
           (w\<lparr> remaining := r',
               SR := replicate (length (SR w)) False,
               SC := replicate (length (SC w)) False,
               shortestPathCosts := replicate (length (shortestPathCosts w)) PInf \<rparr>)"
    (is "searching nr nc c _ _ ?w")
proof -
  from matchingD(1)[OF M] have L: "length (SR w) = nr" "length (SC w) = nc"
    "length (shortestPathCosts w) = nc" and L': "lens nr nc ?w"
    using r'(1) unfolding lens_def by simp_all
  have M': "matching nr nc c ?w" by (rule matching_frame[OF M L']) simp_all
  have R: "rem_ok nc (int nc) ?w"
    unfolding rem_ok_def
  proof (intro conjI allI impI)
    show "0 \<le> int nc" "nat (int nc) \<le> nc" by simp_all
  next
    fix k assume "k < nat (int nc)"
    then have k: "k < nc" by simp
    with r'(2) have "r' ! k = int nc - int k - 1" by simp
    with k L show "0 \<le> remaining ?w ! k" "nat (remaining ?w ! k) < nc"
      "\<not> SC ?w ! nat (remaining ?w ! k)" by auto
  next
    fix k k' assume "k < nat (int nc)" "k' < nat (int nc)" "k \<noteq> k'"
    with r'(2) show "remaining ?w ! k \<noteq> remaining ?w ! k'" by auto
  next
    fix j assume j: "j < nc" "\<not> SC ?w ! j"
    then have "nc - 1 - j < nc" "r' ! (nc - 1 - j) = int j" using r'(2) by auto
    then show "\<exists>k<nat (int nc). remaining ?w ! k = int j" by auto
  qed
  show ?thesis
    unfolding searching_def
  proof (intro conjI)
    show "matching nr nc c ?w" by (rule M')
    show "c < nr" by (rule c)
    show "rem_ok nc (int nc) ?w" by (rule R)
    show "rows_ok nr c ?w" using L by (simp add: rows_ok_def)
    show "0 \<le> int c" "nat (int c) < nr" using c by simp_all
    show "\<not> SR ?w ! nat (int c)" using c L by simp
    show "int c = int c \<or> (nat (int c) < c \<and> SC ?w ! nat (col4row ?w ! nat (int c)) \<and> SR ?w ! c)"
      by simp
    show "\<forall>j<nc. SC ?w ! j \<longrightarrow> row4col ?w ! j \<noteq> - 1 \<and>
        (row4col ?w ! j = int c \<or> SR ?w ! nat (row4col ?w ! j))"
      using L by simp
    show "\<forall>j<nc. \<not> SC ?w ! j \<longrightarrow> shortestPathCosts ?w ! j = PInf \<or>
        (0 \<le> path ?w ! j \<and> nat (path ?w ! j) < nr \<and> SR ?w ! nat (path ?w ! j))"
      using L by simp
    show "\<exists>rank. tree nr nc c rank ?w \<and> (\<forall>j<nc. SC ?w ! j \<longrightarrow> rank j < nc - nat (int nc))"
      using L by (simp add: tree_def)
  qed
qed

lemma augmenting_path_found:
  assumes M: "matching nr nc c w" and c: "c < nr"
    and run: "augmenting_path T (int nc) cost w (int c) = Some (sink, m, w')"
  shows "sink = - 1 \<or> found nr nc c sink w'"
proof -
  from run obtain rem where
    rem: "for_loop 0 (int nc) (\<lambda>it rem. wr rem it (int nc - it - 1)) (remaining w) = Some rem" and
    loop: "search_loop T cost (Fin 0, int c, int nc,
        w\<lparr> remaining := rem,
           SR := replicate (length (SR w)) False,
           SC := replicate (length (SC w)) False,
           shortestPathCosts := replicate (length (shortestPathCosts w)) PInf \<rparr>) = Some (sink, m, w')"
    unfolding augmenting_path_def by (elim bindE) (rule that; assumption)
  from matchingD(1)[OF M] have "length (remaining w) = nc" by (simp add: lens_def)
  from fill_remaining[OF this] rem have "length rem = nc" "\<forall>k<nc. rem ! k = int nc - int k - 1"
    by auto
  from search_loop_found[OF searching_start[OF M c this] loop] show ?thesis .
qed

lemma augmenting_path_total:
  assumes M: "matching nr nc c w" and c: "c < nr" and V: "view_defined T cost nr nc"
  shows "\<exists>res. augmenting_path T (int nc) cost w (int c) = Some res"
proof -
  from matchingD(1)[OF M] have "length (remaining w) = nc" by (simp add: lens_def)
  from fill_remaining[OF this] obtain rem where
    rem: "for_loop 0 (int nc) (\<lambda>it rem. wr rem it (int nc - it - 1)) (remaining w) = Some rem"
    and r: "length rem = nc" "\<forall>k<nc. rem ! k = int nc - int k - 1" by blast
  from search_loop_total[OF searching_start[OF M c r] V, of "Fin 0"] rem
  show ?thesis unfolding augmenting_path_def by simp
qed

subsection \<open>The dual update keeps the search result\<close>

lemma found_frame:
  assumes "found nr nc c sink w" and "length U = length (u w)" and "length V = length (v w)"
  shows "found nr nc c sink (w\<lparr>u := U, v := V\<rparr>)"
  using assms unfolding found_def matching_def rows_ok_def tree_def lens_def by simp

lemma rd_ok: "0 \<le> i \<Longrightarrow> nat i < length xs \<Longrightarrow> rd xs i = Some (xs ! nat i)"
  by (auto simp: rd_def)

lemma wr_ok: "0 \<le> i \<Longrightarrow> nat i < length xs \<Longrightarrow> wr xs i x = Some (xs[nat i := x])"
  by (auto simp: wr_def)

lemma update_u_total:
  assumes "lens nr nc w" and "0 \<le> i" and "nat i < nr"
    and "SR w ! nat i \<Longrightarrow> i \<noteq> c \<Longrightarrow> 0 \<le> col4row w ! nat i \<and> nat (col4row w ! nat i) < nc"
  shows "\<exists>w'. update_u c m i w = Some w'"
proof -
  from assms(1) have L: "length (u w) = nr" "length (shortestPathCosts w) = nc"
    "length (col4row w) = nr" "length (SR w) = nr" unfolding lens_def by blast+
  show ?thesis
  proof (cases "SR w ! nat i \<and> i \<noteq> c")
    case True
    with assms(4) have "0 \<le> col4row w ! nat i" "nat (col4row w ! nat i) < nc" by simp_all
    with True assms(2,3) L show ?thesis
      by (simp add: update_u_def rd_ok wr_ok)
  next
    case False
    with assms(2,3) L show ?thesis by (auto simp: update_u_def rd_ok)
  qed
qed

lemma update_v_total:
  assumes "lens nr nc w" and "0 \<le> j" and "nat j < nc"
  shows "\<exists>w'. update_v m j w = Some w'"
proof -
  from assms(1) have L: "length (v w) = nc" "length (shortestPathCosts w) = nc"
    "length (SC w) = nc" unfolding lens_def by blast+
  with assms(2,3) show ?thesis by (simp add: update_v_def rd_ok wr_ok)
qed

definition duals_only :: "workspace \<Rightarrow> workspace \<Rightarrow> bool" where
  "duals_only w x \<longleftrightarrow>
     shortestPathCosts x = shortestPathCosts w \<and> path x = path w \<and>
     col4row x = col4row w \<and> row4col x = row4col w \<and> SR x = SR w \<and> SC x = SC w \<and>
     remaining x = remaining w \<and> length (u x) = length (u w) \<and> length (v x) = length (v w)"

lemma duals_only_lens: "duals_only w x \<Longrightarrow> lens nr nc w \<Longrightarrow> lens nr nc x"
  by (simp add: duals_only_def lens_def)

lemma update_duals_total:
  assumes F: "found nr nc c sink w"
  shows "\<exists>w'. update_duals (int nr) (int nc) (int c) m w = Some w'"
proof -
  from F have M: "matching nr nc c w" and c: "c < nr"
    and RO: "\<And>k. k < nr \<Longrightarrow> SR w ! k \<Longrightarrow> k = c \<or> (k < c \<and> SC w ! nat (col4row w ! k))"
    unfolding found_def rows_ok_def by blast+
  note Md = matchingD[OF M]
  from Md(1) have L: "length (u w) = nr" unfolding lens_def by blast
  let ?U0 = "(u w)[c := dadd (u w ! c) m]"
  from c L have a: "rd (u w) (int c) = Some (u w ! c)"
    "wr (u w) (int c) (dadd (u w ! c) m) = Some ?U0"
    by (simp_all add: rd_def wr_def)
  let ?I = "\<lambda>(k::int) x. duals_only w x"
  have I0: "?I 0 (w\<lparr>u := ?U0\<rparr>)" by (simp add: duals_only_def)
  have "\<exists>w1. for_loop 0 (int nr) (update_u (int c) m) (w\<lparr>u := ?U0\<rparr>) = Some w1 \<and> ?I (int nr) w1"
  proof (rule for_loop_total[where I = ?I, OF I0])
    show "0 \<le> int nr" by simp
  next
    fix k t assume k: "0 \<le> k" "k < int nr" and I: "?I k t"
    from duals_only_lens[OF I Md(1)] have Lt: "lens nr nc t" .
    from k have kn: "nat k < nr" by simp
    have "0 \<le> col4row t ! nat k \<and> nat (col4row t ! nat k) < nc" if "SR t ! nat k" "k \<noteq> int c"
    proof -
      from that I RO[OF kn] k have "nat k < c" by (auto simp: duals_only_def)
      from Md(3)[OF this] I show ?thesis by (simp add: duals_only_def)
    qed
    from update_u_total[OF Lt k(1) kn this, of "int c" m] obtain t' where
      t': "update_u (int c) m k t = Some t'" by blast
    from update_u_frame[OF t'] I have "?I (k + 1) t'" by (auto simp: duals_only_def)
    with t' show "\<exists>t'. update_u (int c) m k t = Some t' \<and> ?I (k + 1) t'" by blast
  qed
  then obtain w1 where w1: "for_loop 0 (int nr) (update_u (int c) m) (w\<lparr>u := ?U0\<rparr>) = Some w1"
    and I1: "?I 0 w1" by blast
  have "\<exists>w2. for_loop 0 (int nc) (update_v m) w1 = Some w2 \<and> ?I (int nc) w2"
  proof (rule for_loop_total[where I = ?I, OF I1])
    show "0 \<le> int nc" by simp
  next
    fix k t assume k: "0 \<le> k" "k < int nc" and I: "?I k t"
    from duals_only_lens[OF I Md(1)] have Lt: "lens nr nc t" .
    from k have kn: "nat k < nc" by simp
    from update_v_total[OF Lt k(1) kn, of m] obtain t' where
      t': "update_v m k t = Some t'" by blast
    from update_v_frame[OF t'] I have "?I (k + 1) t'" by (auto simp: duals_only_def)
    with t' show "\<exists>t'. update_v m k t = Some t' \<and> ?I (k + 1) t'" by blast
  qed
  with a w1 show ?thesis unfolding update_duals_def by auto
qed

lemma update_duals_only:
  assumes "update_duals a b c' m w = Some w'"
  shows "duals_only w w'"
proof -
  from update_duals_frame[OF assms] obtain U V where
    "w' = w\<lparr>u := U, v := V\<rparr>" "length U = length (u w)" "length V = length (v w)" by blast
  then show ?thesis by (simp add: duals_only_def)
qed

lemma found_duals_only:
  assumes "found nr nc c sink w" and "duals_only w w'"
  shows "found nr nc c sink w'"
  using assms unfolding found_def matching_def rows_ok_def tree_def lens_def duals_only_def
  by simp


subsection \<open>Augmenting along the path\<close>

text \<open>The state of \<open>while (1)\<close> at column \<open>j\<close>: the rows below \<open>c\<close> are matched to columns
  other than \<open>j\<close>, and \<open>row4col[j]\<close> is stale.  \<open>w0\<close> is the workspace before the loop.\<close>

definition aug_inv ::
  "nat \<Rightarrow> nat \<Rightarrow> nat \<Rightarrow> (nat \<Rightarrow> nat) \<Rightarrow> workspace \<Rightarrow> nat \<Rightarrow> nat \<Rightarrow> workspace \<Rightarrow> bool" where
  "aug_inv nr nc c rank w0 sink j w \<longleftrightarrow>
     lens nr nc w \<and> duals_only w0 (w\<lparr>col4row := col4row w0, row4col := row4col w0\<rparr>) \<and>
     u w = u w0 \<and> v w = v w0 \<and>
     j < nc \<and> SC w0 ! j \<and>
     (\<forall>i<c. 0 \<le> col4row w ! i \<and> nat (col4row w ! i) < nc \<and> nat (col4row w ! i) \<noteq> j \<and>
        row4col w ! nat (col4row w ! i) = int i) \<and>
     (\<forall>i<nr. \<not> i < c \<longrightarrow> col4row w ! i = - 1) \<and>
     (\<forall>k<nc. k \<noteq> j \<longrightarrow> row4col w ! k = - 1 \<or>
        (0 \<le> row4col w ! k \<and> nat (row4col w ! k) < c \<and>
         col4row w ! nat (row4col w ! k) = int k)) \<and>
     (\<forall>i<c. col4row w ! i \<noteq> col4row w0 ! i \<longrightarrow> rank j \<le> rank (nat (col4row w0 ! i))) \<and>
     (\<forall>i<c. col4row w ! i = col4row w0 ! i \<or>
        (SC w0 ! nat (col4row w ! i) \<and> path w0 ! nat (col4row w ! i) = int i)) \<and>
     (\<forall>k<nc. k \<noteq> j \<longrightarrow> row4col w0 ! k \<noteq> - 1 \<or> k = sink \<longrightarrow> row4col w ! k \<noteq> - 1)"

text \<open>The workspace after the loop: one more row is matched; a matched pair is an old one
  or an edge \<open>(path[j], j)\<close> of the search tree.\<close>

definition augmented :: "nat \<Rightarrow> nat \<Rightarrow> nat \<Rightarrow> workspace \<Rightarrow> nat \<Rightarrow> workspace \<Rightarrow> bool" where
  "augmented nr nc c w0 sink w \<longleftrightarrow>
     matching nr nc (Suc c) w \<and>
     duals_only w0 (w\<lparr>col4row := col4row w0, row4col := row4col w0\<rparr>) \<and>
     u w = u w0 \<and> v w = v w0 \<and>
     (\<forall>i<Suc c. (i < c \<and> col4row w ! i = col4row w0 ! i) \<or>
        (SC w0 ! nat (col4row w ! i) \<and> path w0 ! nat (col4row w ! i) = int i)) \<and>
     (\<forall>k<nc. row4col w0 ! k \<noteq> - 1 \<or> k = sink \<longrightarrow> row4col w ! k \<noteq> - 1)"

lemma augment_from_inv:
  assumes T: "tree nr nc c rank w0" and RO: "rows_ok nr c w0" and c: "c < nr"
    and inv: "aug_inv nr nc c rank w0 sink j w"
  shows "\<exists>w'. augment (int c) (int j) w = Some w' \<and> augmented nr nc c w0 sink w'"
  using inv
proof (induction "rank j" arbitrary: j w rule: less_induct)
  case less
  note inv = less.prems
  from inv have L: "lens nr nc w"
    and fr: "duals_only w0 (w\<lparr>col4row := col4row w0, row4col := row4col w0\<rparr>)"
    and uv: "u w = u w0" "v w = v w0"
    and j: "j < nc" "SC w0 ! j"
    and A: "\<And>i. i < c \<Longrightarrow> 0 \<le> col4row w ! i \<and> nat (col4row w ! i) < nc \<and>
         nat (col4row w ! i) \<noteq> j \<and> row4col w ! nat (col4row w ! i) = int i"
    and B: "\<And>i. i < nr \<Longrightarrow> \<not> i < c \<Longrightarrow> col4row w ! i = - 1"
    and Cc: "\<And>k. k < nc \<Longrightarrow> k \<noteq> j \<Longrightarrow> row4col w ! k = - 1 \<or>
        (0 \<le> row4col w ! k \<and> nat (row4col w ! k) < c \<and>
         col4row w ! nat (row4col w ! k) = int k)"
    and D: "\<And>i. i < c \<Longrightarrow> col4row w ! i \<noteq> col4row w0 ! i \<Longrightarrow>
         rank j \<le> rank (nat (col4row w0 ! i))"
    and E: "\<And>i. i < c \<Longrightarrow> col4row w ! i = col4row w0 ! i \<or>
        (SC w0 ! nat (col4row w ! i) \<and> path w0 ! nat (col4row w ! i) = int i)"
    and Fm: "\<And>k. k < nc \<Longrightarrow> k \<noteq> j \<Longrightarrow> row4col w0 ! k \<noteq> - 1 \<or> k = sink \<Longrightarrow>
         row4col w ! k \<noteq> - 1"
    unfolding aug_inv_def by blast+
  from fr have pw: "path w = path w0" by (simp add: duals_only_def)
  from L have Ls: "length (path w) = nc" "length (col4row w) = nr" "length (row4col w) = nc"
    unfolding lens_def by blast+
  let ?p = "path w0 ! j"
  let ?pn = "nat ?p"
  from T j have p: "0 \<le> ?p" "?pn < nr" "SR w0 ! ?pn"
    and pt: "?p = int c \<or> (SC w0 ! nat (col4row w0 ! ?pn) \<and>
          rank (nat (col4row w0 ! ?pn)) < rank j)"
    unfolding tree_def by blast+
  let ?R = "(row4col w)[j := ?p]"
  let ?C = "(col4row w)[?pn := int j]"
  let ?w' = "w\<lparr>row4col := ?R, col4row := ?C\<rparr>"
  have reads: "rd (path w) (int j) = Some ?p" "wr (row4col w) (int j) ?p = Some ?R"
    "rd (col4row w) ?p = Some (col4row w ! ?pn)" "wr (col4row w) ?p (int j) = Some ?C"
    using j p Ls pw by (simp_all add: rd_ok wr_ok)
  have unf: "augment (int c) (int j) w =
      (if ?p = int c then Some ?w' else augment (int c) (col4row w ! ?pn) ?w')"
    by (subst augment.simps) (simp add: reads)
  have L': "lens nr nc ?w'" using L by (simp add: lens_def)
  have fr': "duals_only w0 (?w'\<lparr>col4row := col4row w0, row4col := row4col w0\<rparr>)"
    using fr by (simp add: duals_only_def)
  have Rn: "?R ! k = (if k = j then ?p else row4col w ! k)" if "k < nc" for k
    using that Ls by (simp add: nth_list_update)
  have Cn: "?C ! i = (if i = ?pn then int j else col4row w ! i)" if "i < nr" for i
    using that Ls by (simp add: nth_list_update)
  show ?case
  proof (cases "?p = int c")
    case True
    then have pc: "?pn = c" by simp
    have "augmented nr nc c w0 sink ?w'"
      unfolding augmented_def
    proof (intro conjI)
      show "matching nr nc (Suc c) ?w'"
        unfolding matching_def
      proof (intro conjI allI impI)
        show "lens nr nc ?w'" by (rule L')
        show "Suc c \<le> nr" using c by simp
      next
        fix i assume i: "i < nr"
        show "if i < Suc c
          then 0 \<le> col4row ?w' ! i \<and> nat (col4row ?w' ! i) < nc \<and>
               row4col ?w' ! nat (col4row ?w' ! i) = int i
          else col4row ?w' ! i = - 1"
        proof (cases "i < c")
          case True
          with A[OF True] Cn[OF i] Rn[of "nat (col4row w ! i)"] pc show ?thesis by simp
        next
          case False
          show ?thesis
          proof (cases "i = c")
            case True
            with Cn[OF i] Rn[OF j(1)] pc j(1) \<open>?p = int c\<close> show ?thesis by simp
          next
            case ne: False
            with False B[OF i False] Cn[OF i] pc show ?thesis by simp
          qed
        qed
      next
        fix k assume k: "k < nc"
        show "row4col ?w' ! k = - 1 \<or>
          (0 \<le> row4col ?w' ! k \<and> nat (row4col ?w' ! k) < Suc c \<and>
           col4row ?w' ! nat (row4col ?w' ! k) = int k)"
        proof (cases "k = j")
          case True
          with Rn[OF k] Cn[OF c] pc \<open>?p = int c\<close> show ?thesis by simp
        next
          case False
          from Cc[OF k False] show ?thesis
          proof
            assume "row4col w ! k = - 1"
            with Rn[OF k] False show ?thesis by simp
          next
            assume a: "0 \<le> row4col w ! k \<and> nat (row4col w ! k) < c \<and>
              col4row w ! nat (row4col w ! k) = int k"
            then have "nat (row4col w ! k) < nr" using c by simp
            from Cn[OF this] a Rn[OF k] False pc show ?thesis by simp
          qed
        qed
      qed
      show "duals_only w0 (?w'\<lparr>col4row := col4row w0, row4col := row4col w0\<rparr>)" by (rule fr')
      show "u ?w' = u w0" "v ?w' = v w0" using uv by simp_all
      show "\<forall>i<Suc c. (i < c \<and> col4row ?w' ! i = col4row w0 ! i) \<or>
        (SC w0 ! nat (col4row ?w' ! i) \<and> path w0 ! nat (col4row ?w' ! i) = int i)"
      proof (intro allI impI)
        fix i assume i: "i < Suc c"
        then have inr: "i < nr" using c by simp
        show "(i < c \<and> col4row ?w' ! i = col4row w0 ! i) \<or>
          (SC w0 ! nat (col4row ?w' ! i) \<and> path w0 ! nat (col4row ?w' ! i) = int i)"
        proof (cases "i = c")
          case True
          with Cn[OF inr] pc j \<open>?p = int c\<close> show ?thesis by simp
        next
          case False
          with i have ic: "i < c" by simp
          from E[OF ic] Cn[OF inr] False pc ic show ?thesis by simp
        qed
      qed
      show "\<forall>k<nc. row4col w0 ! k \<noteq> - 1 \<or> k = sink \<longrightarrow> row4col ?w' ! k \<noteq> - 1"
      proof (intro allI impI)
        fix k assume k: "k < nc" "row4col w0 ! k \<noteq> - 1 \<or> k = sink"
        show "row4col ?w' ! k \<noteq> - 1"
        proof (cases "k = j")
          case True
          with Rn[OF k(1)] p(1) show ?thesis by simp
        next
          case False
          from Fm[OF k(1) False k(2)] Rn[OF k(1)] False show ?thesis by simp
        qed
      qed
    qed
    with unf True show ?thesis by simp
  next
    case False
    from RO p(2,3) have "?pn = c \<or> ?pn < c" unfolding rows_ok_def by blast
    with False p(1) have pc: "?pn < c" by auto
    from pt False have q0: "SC w0 ! nat (col4row w0 ! ?pn)"
      "rank (nat (col4row w0 ! ?pn)) < rank j" by simp_all
    have same: "col4row w ! ?pn = col4row w0 ! ?pn"
    proof (rule ccontr)
      assume "col4row w ! ?pn \<noteq> col4row w0 ! ?pn"
      from D[OF pc this] q0(2) show False by simp
    qed
    let ?q = "nat (col4row w ! ?pn)"
    from A[OF pc] have q: "0 \<le> col4row w ! ?pn" "?q < nc" "?q \<noteq> j" "row4col w ! ?q = ?p"
      using p(1) by simp_all
    have i1: "0 \<le> col4row ?w' ! i \<and> nat (col4row ?w' ! i) < nc \<and> nat (col4row ?w' ! i) \<noteq> ?q \<and>
         row4col ?w' ! nat (col4row ?w' ! i) = int i" if i: "i < c" for i
    proof -
      from i have inr: "i < nr" using c by simp
      show ?thesis
      proof (cases "i = ?pn")
        case True
        with Cn[OF inr] Rn[OF j(1)] j(1) q(3) p(1) show ?thesis by simp
      next
        case False
        from A[OF i] have a: "0 \<le> col4row w ! i" "nat (col4row w ! i) < nc"
          "nat (col4row w ! i) \<noteq> j" "row4col w ! nat (col4row w ! i) = int i" by simp_all
        have "nat (col4row w ! i) \<noteq> ?q"
        proof
          assume e: "nat (col4row w ! i) = ?q"
          from a(4) have "row4col w ! ?q = int i" unfolding e .
          with q(4) have "int i = ?p" by (simp only:)
          then have "i = ?pn" by (simp only: nat_int)
          with False show False by (simp only:)
        qed
        with a Cn[OF inr] Rn[OF a(2)] False show ?thesis by simp
      qed
    qed
    have i2: "col4row ?w' ! i = - 1" if i: "i < nr" "\<not> i < c" for i
    proof -
      from i pc have "i \<noteq> ?pn" by auto
      with B[OF i] Cn[OF i(1)] show ?thesis by simp
    qed
    have i3: "row4col ?w' ! k = - 1 \<or>
        (0 \<le> row4col ?w' ! k \<and> nat (row4col ?w' ! k) < c \<and>
         col4row ?w' ! nat (row4col ?w' ! k) = int k)" if k: "k < nc" "k \<noteq> ?q" for k
    proof (cases "k = j")
      case True
      with Rn[OF k(1)] Cn[OF p(2)] p(1) pc show ?thesis by simp
    next
      case False
      from Cc[OF k(1) False] show ?thesis
      proof
        assume "row4col w ! k = - 1"
        with Rn[OF k(1)] False show ?thesis by simp
      next
        assume a: "0 \<le> row4col w ! k \<and> nat (row4col w ! k) < c \<and>
          col4row w ! nat (row4col w ! k) = int k"
        then have rn: "nat (row4col w ! k) < nr" using c by simp
        have "nat (row4col w ! k) \<noteq> ?pn"
        proof
          assume e: "nat (row4col w ! k) = ?pn"
          from a have "col4row w ! nat (row4col w ! k) = int k" by (simp only:)
          then have "col4row w ! ?pn = int k" unfolding e .
          then have "?q = k" by (simp only: nat_int)
          with k(2) show False by (simp only:)
        qed
        with Cn[OF rn] a Rn[OF k(1)] False show ?thesis by simp
      qed
    qed
    have i4: "rank ?q \<le> rank (nat (col4row w0 ! i))"
      if i: "i < c" "col4row ?w' ! i \<noteq> col4row w0 ! i" for i
    proof -
      from i have inr: "i < nr" using c by simp
      show ?thesis
      proof (cases "i = ?pn")
        case True
        with same show ?thesis by simp
      next
        case False
        with i(2) Cn[OF inr] have "col4row w ! i \<noteq> col4row w0 ! i" by simp
        from D[OF i(1) this] q0(2) same show ?thesis by simp
      qed
    qed
    have i5: "col4row ?w' ! i = col4row w0 ! i \<or>
        (SC w0 ! nat (col4row ?w' ! i) \<and> path w0 ! nat (col4row ?w' ! i) = int i)"
      if i: "i < c" for i
    proof -
      from i have inr: "i < nr" using c by simp
      show ?thesis
      proof (cases "i = ?pn")
        case True
        with Cn[OF inr] j p(1) show ?thesis by simp
      next
        case False
        with E[OF i] Cn[OF inr] show ?thesis by simp
      qed
    qed
    have i6: "row4col ?w' ! k \<noteq> - 1"
      if k: "k < nc" "k \<noteq> ?q" "row4col w0 ! k \<noteq> - 1 \<or> k = sink" for k
    proof (cases "k = j")
      case True
      with Rn[OF k(1)] p(1) show ?thesis by simp
    next
      case False
      from Fm[OF k(1) False k(3)] Rn[OF k(1)] False show ?thesis by simp
    qed
    have inv': "aug_inv nr nc c rank w0 sink ?q ?w'"
      unfolding aug_inv_def
    proof (intro conjI)
      show "lens nr nc ?w'" by (rule L')
      show "duals_only w0 (?w'\<lparr>col4row := col4row w0, row4col := row4col w0\<rparr>)" by (rule fr')
      show "u ?w' = u w0" "v ?w' = v w0" using uv by simp_all
      show "?q < nc" by (rule q(2))
      show "SC w0 ! ?q" using q0(1) same by simp
      show "\<forall>i<c. 0 \<le> col4row ?w' ! i \<and> nat (col4row ?w' ! i) < nc \<and>
         nat (col4row ?w' ! i) \<noteq> ?q \<and> row4col ?w' ! nat (col4row ?w' ! i) = int i"
        using i1 by blast
      show "\<forall>i<nr. \<not> i < c \<longrightarrow> col4row ?w' ! i = - 1" using i2 by blast
      show "\<forall>k<nc. k \<noteq> ?q \<longrightarrow> row4col ?w' ! k = - 1 \<or>
        (0 \<le> row4col ?w' ! k \<and> nat (row4col ?w' ! k) < c \<and>
         col4row ?w' ! nat (row4col ?w' ! k) = int k)" using i3 by blast
      show "\<forall>i<c. col4row ?w' ! i \<noteq> col4row w0 ! i \<longrightarrow>
         rank ?q \<le> rank (nat (col4row w0 ! i))" using i4 by blast
      show "\<forall>i<c. col4row ?w' ! i = col4row w0 ! i \<or>
        (SC w0 ! nat (col4row ?w' ! i) \<and> path w0 ! nat (col4row ?w' ! i) = int i)"
        using i5 by blast
      show "\<forall>k<nc. k \<noteq> ?q \<longrightarrow> row4col w0 ! k \<noteq> - 1 \<or> k = sink \<longrightarrow> row4col ?w' ! k \<noteq> - 1"
        using i6 by blast
    qed
    from q0(2) same have "rank ?q < rank j" by simp
    from less.hyps[OF this inv'] q(1) unf False show ?thesis by simp
  qed
qed


lemma augment_found:
  assumes F: "found nr nc c sink w"
  shows "\<exists>w'. augment (int c) sink w = Some w' \<and> augmented nr nc c w (nat sink) w'"
proof -
  from F have M: "matching nr nc c w" and c: "c < nr" and RO: "rows_ok nr c w"
    and sink: "0 \<le> sink" "nat sink < nc" "row4col w ! nat sink = - 1" "SC w ! nat sink"
    unfolding found_def by blast+
  from F obtain rank where T: "tree nr nc c rank w" unfolding found_def by blast
  note Md = matchingD[OF M]
  have "aug_inv nr nc c rank w (nat sink) (nat sink) w"
    unfolding aug_inv_def
  proof (intro conjI)
    show "lens nr nc w" by (rule Md(1))
    show "duals_only w (w\<lparr>col4row := col4row w, row4col := row4col w\<rparr>)"
      by (simp add: duals_only_def)
    show "u w = u w" "v w = v w" by simp_all
    show "nat sink < nc" "SC w ! nat sink" by (rule sink(2), rule sink(4))
    show "\<forall>i<c. 0 \<le> col4row w ! i \<and> nat (col4row w ! i) < nc \<and> nat (col4row w ! i) \<noteq> nat sink \<and>
        row4col w ! nat (col4row w ! i) = int i"
    proof (intro allI impI)
      fix i assume i: "i < c"
      from Md(3)[OF i] sink(3) have "nat (col4row w ! i) \<noteq> nat sink" by auto
      with Md(3)[OF i] show "0 \<le> col4row w ! i \<and> nat (col4row w ! i) < nc \<and>
        nat (col4row w ! i) \<noteq> nat sink \<and> row4col w ! nat (col4row w ! i) = int i" by simp
    qed
    show "\<forall>i<nr. \<not> i < c \<longrightarrow> col4row w ! i = - 1" using Md(4) by blast
    show "\<forall>k<nc. k \<noteq> nat sink \<longrightarrow> row4col w ! k = - 1 \<or>
        (0 \<le> row4col w ! k \<and> nat (row4col w ! k) < c \<and>
         col4row w ! nat (row4col w ! k) = int k)" using Md(5) by blast
    show "\<forall>i<c. col4row w ! i \<noteq> col4row w ! i \<longrightarrow>
        rank (nat sink) \<le> rank (nat (col4row w ! i))" by simp
    show "\<forall>i<c. col4row w ! i = col4row w ! i \<or>
        (SC w ! nat (col4row w ! i) \<and> path w ! nat (col4row w ! i) = int i)" by simp
    show "\<forall>k<nc. k \<noteq> nat sink \<longrightarrow> row4col w ! k \<noteq> - 1 \<or> k = nat sink \<longrightarrow> row4col w ! k \<noteq> - 1"
      by simp
  qed
  from augment_from_inv[OF T RO c this] sink(1) show ?thesis by simp
qed

subsection \<open>One round of the main loop\<close>

lemma main_step_unfold:
  assumes "main_step T nr nc cost c w = Some r"
  obtains sink m w1 where
    "augmenting_path T nc cost w c = Some (sink, m, w1)" and
    "sink < 0 \<longrightarrow> r = Inl INFEASIBLE" and
    "\<not> sink < 0 \<longrightarrow> (\<exists>w2 w3. update_duals nr nc c m w1 = Some w2 \<and>
        augment c sink w2 = Some w3 \<and> r = Inr w3)"
proof -
  from assms[unfolded main_step_def] obtain x where
    x: "augmenting_path T nc cost w c = Some x" and
    rest: "(case x of (sink, minVal, w1) \<Rightarrow>
        if sink < 0 then Some (Inl INFEASIBLE)
        else do {
          w2 \<leftarrow> update_duals nr nc c minVal w1;
          w3 \<leftarrow> augment c sink w2;
          Some (Inr w3)
        }) = Some r"
    by (elim bindE) (rule that; assumption)
  obtain sink m w1 where xx: "x = (sink, m, w1)" by (cases x)
  show ?thesis
  proof (rule that[OF x[unfolded xx]]; rule impI)
    assume "sink < 0"
    with rest xx show "r = Inl INFEASIBLE" by simp
  next
    assume "\<not> sink < 0"
    with rest xx have "do {
          w2 \<leftarrow> update_duals nr nc c m w1;
          w3 \<leftarrow> augment c sink w2;
          Some (Inr w3)
        } = Some r" by simp
    then obtain w2 w3 where "update_duals nr nc c m w1 = Some w2" "augment c sink w2 = Some w3"
      "Some (Inr w3) = Some r"
      by (elim bindE) (rule that; assumption)
    then show "\<exists>w2 w3. update_duals nr nc c m w1 = Some w2 \<and>
        augment c sink w2 = Some w3 \<and> r = Inr w3" by auto
  qed
qed

lemma main_step_matching:
  assumes M: "matching nr nc c w" and c: "c < nr"
    and step: "main_step T (int nr) (int nc) cost (int c) w = Some (Inr w')"
  shows "matching nr nc (Suc c) w'"
proof -
  from step obtain sink m w1 where
    ap: "augmenting_path T (int nc) cost w (int c) = Some (sink, m, w1)" and
    a: "sink < 0 \<longrightarrow> Inr w' = (Inl INFEASIBLE :: status + workspace)" and
    b: "\<not> sink < 0 \<longrightarrow> (\<exists>w2 w3. update_duals (int nr) (int nc) (int c) m w1 = Some w2 \<and>
        augment (int c) sink w2 = Some w3 \<and> Inr w' = (Inr w3 :: status + workspace))"
    by (rule main_step_unfold) (rule that; assumption)
  from a have ns: "\<not> sink < 0" by auto
  with b obtain w2 where ud: "update_duals (int nr) (int nc) (int c) m w1 = Some w2"
    and au: "augment (int c) sink w2 = Some w'" by auto
  from augmenting_path_found[OF M c ap] ns have "found nr nc c sink w1" by auto
  from found_duals_only[OF this update_duals_only[OF ud]] have "found nr nc c sink w2" .
  from augment_found[OF this] au show ?thesis by (auto simp: augmented_def)
qed

lemma main_step_total:
  assumes M: "matching nr nc c w" and c: "c < nr" and V: "view_defined T cost nr nc"
  shows "\<exists>r. main_step T (int nr) (int nc) cost (int c) w = Some r"
proof -
  from augmenting_path_total[OF M c V] obtain sink m w1 where
    ap: "augmenting_path T (int nc) cost w (int c) = Some (sink, m, w1)" by auto
  show ?thesis
  proof (cases "sink < 0")
    case True
    with ap show ?thesis by (simp add: main_step_def)
  next
    case False
    with augmenting_path_found[OF M c ap] have F: "found nr nc c sink w1" by auto
    from update_duals_total[OF F, of m] obtain w2 where
      ud: "update_duals (int nr) (int nc) (int c) m w1 = Some w2" by blast
    from found_duals_only[OF F update_duals_only[OF ud]] have "found nr nc c sink w2" .
    from augment_found[OF this] obtain w3 where "augment (int c) sink w2 = Some w3" by blast
    with ap ud False show ?thesis by (simp add: main_step_def)
  qed
qed

subsection \<open>The main loop\<close>

lemma init_workspace_matching:
  assumes "init_workspace (int nr) (int nc) = Some w0"
  shows "matching nr nc 0 w0"
  using assms by (auto simp: init_workspace_def matching_def lens_def)


lemma for_loop_ret_total:
  assumes "I lo s" and "lo \<le> n"
    and "\<And>k t. lo \<le> k \<Longrightarrow> k < n \<Longrightarrow> I k t \<Longrightarrow>
          \<exists>r. body k t = Some r \<and> (case r of Inr t' \<Rightarrow> I (k + 1) t' | Inl e \<Rightarrow> True)"
  shows "\<exists>r. for_loop_ret lo n body s = Some r"
  using assms
proof (induction lo n body s rule: for_loop_ret.induct)
  case (1 it n body s)
  show ?case
  proof (cases "it < n")
    case False
    then show ?thesis by (simp add: for_loop_ret_done)
  next
    case True
    from "1.prems"(3)[of it s] True "1.prems"(1) obtain r where
      r: "body it s = Some r" "case r of Inr t' \<Rightarrow> I (it + 1) t' | Inl e \<Rightarrow> True" by auto
    show ?thesis
    proof (cases r)
      case (Inl e)
      with r True show ?thesis by (simp add: for_loop_ret_step)
    next
      case (Inr t)
      with r have "I (it + 1) t" by simp
      from "1.IH"[OF True r(1) Inr this] True "1.prems"(3)
      have "\<exists>r. for_loop_ret (it + 1) n body t = Some r" by simp
      with r Inr True show ?thesis by (simp add: for_loop_ret_step)
    qed
  qed
qed

lemma main_loop_total:
  assumes M: "matching nr nc 0 w0" and V: "view_defined T cost nr nc"
  shows "\<exists>r. for_loop_ret 0 (int nr) (main_step T (int nr) (int nc) cost) w0 = Some r"
proof (rule for_loop_ret_total[where I = "\<lambda>k x. 0 \<le> k \<and> matching nr nc (nat k) x"])
  show "0 \<le> (0::int) \<and> matching nr nc (nat 0) w0" using M by simp
  show "0 \<le> int nr" by simp
next
  fix k t
  assume k: "0 \<le> k" "k < int nr" and I: "0 \<le> k \<and> matching nr nc (nat k) t"
  from k have kn: "nat k < nr" "int (nat k) = k" by simp_all
  from I have M: "matching nr nc (nat k) t" by simp
  from main_step_total[OF M kn(1) V] kn(2) obtain r where
    r: "main_step T (int nr) (int nc) cost k t = Some r" by auto
  have "case r of Inr t' \<Rightarrow> 0 \<le> k + 1 \<and> matching nr nc (nat (k + 1)) t' | Inl e \<Rightarrow> True"
  proof (cases r)
    case (Inr t')
    from main_step_matching[OF M kn(1), of T cost t'] r Inr kn(2)
    have "matching nr nc (Suc (nat k)) t'" by simp
    moreover from k have "nat (k + 1) = Suc (nat k)" by simp
    ultimately show ?thesis using k Inr by simp
  qed simp
  with r show "\<exists>r. main_step T (int nr) (int nc) cost k t = Some r \<and>
     (case r of Inr t' \<Rightarrow> 0 \<le> k + 1 \<and> matching nr nc (nat (k + 1)) t' | Inl e \<Rightarrow> True)"
    by blast
qed

section \<open>\<open>solve\<close> after the checks\<close>





lemma bind_weak_cong: "m = m' \<Longrightarrow> Option.bind m f = Option.bind m' f"
  by simp

lemmas weak_congs = bind_weak_cong option.case_cong_weak sum.case_cong_weak if_weak_cong



section \<open>The pairs written\<close>




text \<open>The remap loop replaces each entry by the subscript it selects.\<close>

definition remap :: "int list option \<Rightarrow> int \<Rightarrow> int" where
  "remap os x = (case os of None \<Rightarrow> x | Some s \<Rightarrow> s ! nat x)"





lemma remap_None [simp]: "map (remap None) xs = xs"
  by (simp add: remap_def map_idI)















section \<open>Infeasible problems\<close>


lemma relax_inf_row [simp]: "relax PInf (dsub (dsub PInf a) b) = PInf"
  by (cases a; cases b) (simp_all add: relax_def dsub_def)







lemma matrix2d_view_defined:
  assumes "length cost = nat (nr0 * nc0)" and "0 \<le> nr0" and "0 \<le> nc0"
  shows "view_defined T (matrix2d cost nr0 nc0) (nat nr0) (nat nc0)"
    and "0 \<le> i \<Longrightarrow> i < nr0 \<Longrightarrow> 0 \<le> j \<Longrightarrow> j < nc0 \<Longrightarrow>
           get T (matrix2d cost nr0 nc0) i j = Some (cost ! nat (i * nc0 + j))"
proof -
  have g: "get T (matrix2d cost nr0 nc0) i j = Some (cost ! nat (i * nc0 + j))"
    if "0 \<le> i" "i < nr0" "0 \<le> j" "j < nc0" for i j
  proof -
    from that have "i * nc0 + j < (i + 1) * nc0" by (simp add: algebra_simps)
    also from that have "\<dots> \<le> nr0 * nc0" by (intro mult_right_mono) simp_all
    finally have "i * nc0 + j < nr0 * nc0" .
    moreover from that have "0 \<le> i * nc0 + j" by simp
    ultimately show ?thesis using assms(1)
      by (simp add: get_def matrix2d_def rd_def)
  qed
  then show "0 \<le> i \<Longrightarrow> i < nr0 \<Longrightarrow> 0 \<le> j \<Longrightarrow> j < nc0 \<Longrightarrow>
           get T (matrix2d cost nr0 nc0) i j = Some (cost ! nat (i * nc0 + j))" .
  show "view_defined T (matrix2d cost nr0 nc0) (nat nr0) (nat nc0)"
    unfolding view_defined_def
  proof (intro allI impI)
    fix i j :: int
    assume "0 \<le> i \<and> nat i < nat nr0 \<and> 0 \<le> j \<and> nat j < nat nc0"
    then have "0 \<le> i" "i < nr0" "0 \<le> j" "j < nc0" by simp_all
    from g[OF this] show "get T (matrix2d cost nr0 nc0) i j \<noteq> None" by simp
  qed
qed











section \<open>Constant matrices\<close>


















section \<open>Views that agree on the working range\<close>












section \<open>Selectors and the materialised submatrix\<close>




lemma in_bounds_index:
  fixes a b nr0 nc0 :: int
  assumes "0 \<le> a" "a < nr0" "0 \<le> b" "b < nc0"
  shows "0 \<le> a * nc0 + b" and "a * nc0 + b < nr0 * nc0"
proof -
  from assms have "0 \<le> nc0" by simp
  with assms have "0 \<le> a * nc0" by (intro mult_nonneg_nonneg)
  with assms show "0 \<le> a * nc0 + b" by simp
  from assms have "a * nc0 + b < (a + 1) * nc0" by (simp add: algebra_simps)
  also from assms have "\<dots> \<le> nr0 * nc0" by (intro mult_right_mono) simp_all
  finally show "a * nc0 + b < nr0 * nc0" .
qed











section \<open>The dual variables\<close>

lemma reduced_SR [simp]: "reduced T cost (w\<lparr>SR := x\<rparr>) m i j = reduced T cost w m i j"
  by (simp add: reduced_def)

lemma search_step_effect:
  assumes inv: "searching nr nc c i n w" and step: "search_step T cost (m, i, n, w) = Some r"
    and go: "\<And>w1. r \<noteq> Inl (- 1, PInf, w1)"
  obtains S P jx lowest w2 where
    "lowest \<noteq> PInf" and "lowest \<noteq> NaN" and
    "length S = nc" and "length P = nc" and "jx < nc" and "\<not> SC w ! jx" and "S ! jx = lowest" and
    "\<And>j. j < nc \<Longrightarrow> SC w ! j \<Longrightarrow> S ! j = shortestPathCosts w ! j \<and> P ! j = path w ! j" and
    "\<And>j. j < nc \<Longrightarrow> \<not> SC w ! j \<Longrightarrow>
       S ! j = relax (shortestPathCosts w ! j) (reduced T cost w m i (int j)) \<and>
       ((P ! j = path w ! j \<and> S ! j = shortestPathCosts w ! j) \<or>
        (P ! j = i \<and> S ! j = reduced T cost w m i (int j) \<and>
         dless (S ! j) (shortestPathCosts w ! j)))" and
    "\<And>j. j < nc \<Longrightarrow> \<not> SC w ! j \<Longrightarrow> \<not> dless (S ! j) lowest" and
    "u w2 = u w" and "v w2 = v w" and "col4row w2 = col4row w" and "row4col w2 = row4col w" and
    "SR w2 = (SR w)[nat i := True]" and "SC w2 = (SC w)[jx := True]" and
    "path w2 = P" and "shortestPathCosts w2 = S" and
    "r = (if row4col w ! jx = - 1 then Inl (int jx, lowest, w2)
          else Inr (lowest, row4col w ! jx, n - 1, w2))"
proof -
  from inv have M: "matching nr nc c w" and R: "rem_ok nc n w"
    unfolding searching_def by blast+
  note Md = matchingD[OF M]
  from Md(1) have L: "length (u w) = nr" "length (v w) = nc" "length (shortestPathCosts w) = nc"
     "length (path w) = nc" "length (col4row w) = nr" "length (row4col w) = nc"
     "length (SR w) = nr" "length (SC w) = nc" "length (remaining w) = nc"
    unfolding lens_def by blast+
  from R have n0: "0 \<le> n" and nn: "nat n \<le> nc"
    and rng: "\<And>k. k < nat n \<Longrightarrow> 0 \<le> remaining w ! k \<and> nat (remaining w ! k) < nc \<and>
        \<not> SC w ! nat (remaining w ! k)"
    and cov: "\<And>j. j < nc \<Longrightarrow> \<not> SC w ! j \<Longrightarrow> \<exists>k<nat n. remaining w ! k = int j"
    unfolding rem_ok_def by blast+
  let ?sr = "(SR w)[nat i := True]"
  let ?w0 = "w\<lparr>SR := ?sr\<rparr>"
  from step obtain w1 lowest index where
    loop: "for_loop 0 n (scan_step T cost m i) (?w0, PInf, - 1) = Some (w1, lowest, index)" and
    stop: "lowest = PInf \<longrightarrow> r = Inl (- 1, lowest, w1)" and
    cont: "lowest \<noteq> PInf \<longrightarrow>
       0 \<le> index \<and> nat index < length (remaining w1) \<and>
       0 \<le> remaining w1 ! nat index \<and>
       nat (remaining w1 ! nat index) < length (row4col w1) \<and>
       nat (remaining w1 ! nat index) < length (SC w1) \<and>
       0 \<le> n - 1 \<and> nat (n - 1) < length (remaining w1) \<and>
       r = (if row4col w1 ! nat (remaining w1 ! nat index) = - 1
            then Inl (remaining w1 ! nat index, lowest,
                   w1\<lparr>SC := (SC w1)[nat (remaining w1 ! nat index) := True],
                      remaining := (remaining w1)[nat index := remaining w1 ! nat (n - 1)]\<rparr>)
            else Inr (lowest, row4col w1 ! nat (remaining w1 ! nat index), n - 1,
                   w1\<lparr>SC := (SC w1)[nat (remaining w1 ! nat index) := True],
                      remaining := (remaining w1)[nat index := remaining w1 ! nat (n - 1)]\<rparr>))"
    by (rule search_step_unfold) (rule that; assumption)
  from stop go have low: "lowest \<noteq> PInf" by blast
  from scan_loop_effect[OF loop n0] obtain P S where
    w1: "w1 = ?w0\<lparr>path := P, shortestPathCosts := S\<rparr>" and
    lP: "length P = length (path ?w0)" and lS: "length S = length (shortestPathCosts ?w0)" and
    eff: "\<And>j. 0 \<le> j \<Longrightarrow>
       (S ! nat j = shortestPathCosts ?w0 ! nat j \<and> P ! nat j = path ?w0 ! nat j) \<or>
       (visited ?w0 n j \<and> P ! nat j = i \<and> S ! nat j = reduced T cost ?w0 m i j \<and>
        dless (S ! nat j) (shortestPathCosts ?w0 ! nat j))" and
    unv: "\<And>j. 0 \<le> j \<Longrightarrow> \<not> visited ?w0 n j \<Longrightarrow>
       S ! nat j = shortestPathCosts ?w0 ! nat j \<and> P ! nat j = path ?w0 ! nat j" and
    val: "\<And>it. 0 \<le> it \<Longrightarrow> it < n \<Longrightarrow> scan_reads T cost ?w0 i it \<and>
       S ! nat (remaining ?w0 ! nat it) = scanned T cost ?w0 m i (remaining ?w0 ! nat it)" and
    ch: "chosen (\<lambda>it. S ! nat (remaining ?w0 ! nat it))
            (\<lambda>it. row4col ?w0 ! nat (remaining ?w0 ! nat it) = - 1) n lowest index"
    by blast
  from ch low have ne: "index \<noteq> - 1" by (auto dest: chosen_none_low)
  note s = chosen_some[OF ch ne]
  note cl = chosen_low[OF ch]
  let ?jx = "remaining w ! nat index"
  let ?j = "nat ?jx"
  from s(1,2) have idx: "nat index < nat n" by simp
  from rng[OF idx] have j: "0 \<le> ?jx" "?j < nc" "\<not> SC w ! ?j" by simp_all
  from s(3) have Sj: "S ! ?j = lowest" by simp
  define w2 where "w2 = w1\<lparr>SC := (SC w1)[?j := True],
                      remaining := (remaining w1)[nat index := remaining w1 ! nat (n - 1)]\<rparr>"
  from cont low w1 have r: "r = (if row4col w ! ?j = - 1 then Inl (int ?j, lowest, w2)
          else Inr (lowest, row4col w ! ?j, n - 1, w2))"
    using j(1) by (simp add: w2_def)
  have vis: "\<not> visited ?w0 n (int k)" if "k < nc" "SC w ! k" for k
  proof
    assume "visited ?w0 n (int k)"
    then obtain it where "0 \<le> it" "it < n" "remaining w ! nat it = int k"
      by (auto simp: visited_def)
    with rng[of "nat it"] that show False by auto
  qed
  have old: "S ! k = shortestPathCosts w ! k \<and> P ! k = path w ! k" if "k < nc" "SC w ! k" for k
    using unv[OF _ vis[OF that]] by simp
  have new: "S ! k = relax (shortestPathCosts w ! k) (reduced T cost w m i (int k)) \<and>
       ((P ! k = path w ! k \<and> S ! k = shortestPathCosts w ! k) \<or>
        (P ! k = i \<and> S ! k = reduced T cost w m i (int k) \<and>
         dless (S ! k) (shortestPathCosts w ! k)))"
    and nlow: "\<not> dless (S ! k) lowest" if k: "k < nc" "\<not> SC w ! k" for k
  proof -
    from cov[OF k] obtain it where it: "it < nat n" "remaining w ! it = int k" by blast
    then have it': "0 \<le> int it" "int it < n" by simp_all
    from val[OF it'] it have "S ! k = scanned T cost ?w0 m i (int k)" by simp
    then have a: "S ! k = relax (shortestPathCosts w ! k) (reduced T cost w m i (int k))"
      by (simp add: scanned_def)
    from eff[of "int k"] have b: "(P ! k = path w ! k \<and> S ! k = shortestPathCosts w ! k) \<or>
        (P ! k = i \<and> S ! k = reduced T cost w m i (int k) \<and>
         dless (S ! k) (shortestPathCosts w ! k))" by auto
    from a b show "S ! k = relax (shortestPathCosts w ! k) (reduced T cost w m i (int k)) \<and>
       ((P ! k = path w ! k \<and> S ! k = shortestPathCosts w ! k) \<or>
        (P ! k = i \<and> S ! k = reduced T cost w m i (int k) \<and>
         dless (S ! k) (shortestPathCosts w ! k)))" by blast
    from cl(2)[OF it'] it show "\<not> dless (S ! k) lowest" by simp
  qed
  show ?thesis
  proof (rule that[where S = S and P = P and jx = ?j and lowest = lowest and ?w2.0 = w2])
    show "lowest \<noteq> PInf" by (rule low)
    show "lowest \<noteq> NaN" by (rule cl(1))
    show "length S = nc" "length P = nc" using lS lP L by simp_all
    show "?j < nc" "\<not> SC w ! ?j" "S ! ?j = lowest" using j Sj by simp_all
    show "\<And>j. j < nc \<Longrightarrow> SC w ! j \<Longrightarrow> S ! j = shortestPathCosts w ! j \<and> P ! j = path w ! j"
      by (rule old)
    show "\<And>j. j < nc \<Longrightarrow> \<not> SC w ! j \<Longrightarrow>
       S ! j = relax (shortestPathCosts w ! j) (reduced T cost w m i (int j)) \<and>
       ((P ! j = path w ! j \<and> S ! j = shortestPathCosts w ! j) \<or>
        (P ! j = i \<and> S ! j = reduced T cost w m i (int j) \<and>
         dless (S ! j) (shortestPathCosts w ! j)))"
      by (rule new)
    show "\<And>j. j < nc \<Longrightarrow> \<not> SC w ! j \<Longrightarrow> \<not> dless (S ! j) lowest" by (rule nlow)
    show "u w2 = u w" "v w2 = v w" "col4row w2 = col4row w" "row4col w2 = row4col w"
      "SR w2 = (SR w)[nat i := True]" "SC w2 = (SC w)[?j := True]"
      "path w2 = P" "shortestPathCosts w2 = S"
      by (simp_all add: w2_def w1)
    show "r = (if row4col w ! ?j = - 1 then Inl (int ?j, lowest, w2)
          else Inr (lowest, row4col w ! ?j, n - 1, w2))" by (rule r)
  qed
qed


definition fin :: "dbl \<Rightarrow> bool" where
  "fin x \<longleftrightarrow> (\<exists>r. x = Fin r)"

lemma fin_Fin [simp]: "fin (Fin r)" and fin_PInf [simp]: "\<not> fin PInf"
  and fin_MInf [simp]: "\<not> fin MInf" and fin_NaN [simp]: "\<not> fin NaN"
  by (simp_all add: fin_def)

lemma finE: "fin x \<Longrightarrow> (\<And>r. x = Fin r \<Longrightarrow> P) \<Longrightarrow> P"
  by (auto simp: fin_def)

lemma dle_simps [simp]:
  "dle (Fin x) (Fin y) \<longleftrightarrow> x \<le> y" "dle (Fin x) PInf" "dle PInf PInf" "\<not> dle PInf (Fin y)"
  by (auto simp: dle_def deq_def)

lemma dsub_simps [simp]:
  "dsub (Fin x) (Fin y) = Fin (x - y)" "dsub PInf (Fin y) = PInf"
  by (simp_all add: dsub_def)

lemma not_dless_dle: "\<not> dless x y \<Longrightarrow> x \<noteq> NaN \<Longrightarrow> y \<noteq> NaN \<Longrightarrow> dle y x"
  by (cases x; cases y) (auto simp: dle_def deq_def)

lemma dless_dle: "dless x y \<Longrightarrow> dle x y"
  by (simp add: dle_def)

lemma dle_trans: "dle x y \<Longrightarrow> dle y z \<Longrightarrow> dle x z"
  by (cases x; cases y; cases z) (auto simp: dle_def deq_def)

lemma dle_refl: "x \<noteq> NaN \<Longrightarrow> dle x x"
  by (simp add: dle_def deq_def)

text \<open>The entry \<open>(i, j)\<close> of the view, widened to \<open>double\<close>.\<close>

definition cst :: "'a dtype \<Rightarrow> 'a matrix2d \<Rightarrow> nat \<Rightarrow> nat \<Rightarrow> dbl" where
  "cst T cost i j = widen T (the (get T cost (int i) (int j)))"

definition view_ok :: "'a dtype \<Rightarrow> 'a matrix2d \<Rightarrow> nat \<Rightarrow> nat \<Rightarrow> bool" where
  "view_ok T cost nr nc \<longleftrightarrow>
     view_defined T cost nr nc \<and>
     (\<forall>i<nr. \<forall>j<nc. cst T cost i j = PInf \<or> fin (cst T cost i j))"

lemma reduced_cst:
  "reduced T cost w m (int i) (int j) = dsub (dsub (dadd m (cst T cost i j)) (u w ! i)) (v w ! j)"
  by (simp add: reduced_def cst_def)

text \<open>The duals are finite, feasible on the rows \<open>< c\<close> and tight on their pairs.\<close>

definition duals_ok :: "'a dtype \<Rightarrow> 'a matrix2d \<Rightarrow> nat \<Rightarrow> nat \<Rightarrow> nat \<Rightarrow> workspace \<Rightarrow> bool" where
  "duals_ok T cost nr nc c w \<longleftrightarrow>
     (\<forall>i<nr. fin (u w ! i)) \<and> (\<forall>j<nc. fin (v w ! j)) \<and>
     (\<forall>i<c. \<forall>j<nc. dle (dadd (u w ! i) (v w ! j)) (cst T cost i j)) \<and>
     (\<forall>i<c. dadd (u w ! i) (v w ! nat (col4row w ! i)) = cst T cost i (nat (col4row w ! i)))"

definition dist :: "nat \<Rightarrow> workspace \<Rightarrow> nat \<Rightarrow> dbl" where
  "dist c w i = (if i = c then Fin 0 else shortestPathCosts w ! nat (col4row w ! i))"

definition dcore :: "'a dtype \<Rightarrow> 'a matrix2d \<Rightarrow> nat \<Rightarrow> nat \<Rightarrow> nat \<Rightarrow> dbl \<Rightarrow> workspace \<Rightarrow> bool" where
  "dcore T cost nr nc c m w \<longleftrightarrow>
     duals_ok T cost nr nc c w \<and> fin m \<and>
     (\<forall>j<nc. shortestPathCosts w ! j = PInf \<or> fin (shortestPathCosts w ! j)) \<and>
     (\<forall>j<nc. SC w ! j \<longrightarrow> fin (shortestPathCosts w ! j) \<and> dle (shortestPathCosts w ! j) m) \<and>
     (\<forall>i<nr. SR w ! i \<longrightarrow>
        (\<forall>j<nc. dle (shortestPathCosts w ! j) (reduced T cost w (dist c w i) (int i) (int j)))) \<and>
     (\<forall>j<nc. shortestPathCosts w ! j \<noteq> PInf \<longrightarrow>
        0 \<le> path w ! j \<and> nat (path w ! j) < nr \<and> SR w ! nat (path w ! j) \<and>
        shortestPathCosts w ! j =
          reduced T cost w (dist c w (nat (path w ! j))) (path w ! j) (int j)) \<and>
     (\<forall>j<nc. \<not> SC w ! j \<longrightarrow> dle m (shortestPathCosts w ! j))"

lemma dcoreD:
  assumes "dcore T cost nr nc c m w"
  shows "duals_ok T cost nr nc c w" and "fin m"
    and "\<And>j. j < nc \<Longrightarrow> shortestPathCosts w ! j = PInf \<or> fin (shortestPathCosts w ! j)"
    and "\<And>j. j < nc \<Longrightarrow> SC w ! j \<Longrightarrow> fin (shortestPathCosts w ! j) \<and> dle (shortestPathCosts w ! j) m"
    and "\<And>i j. i < nr \<Longrightarrow> SR w ! i \<Longrightarrow> j < nc \<Longrightarrow>
           dle (shortestPathCosts w ! j) (reduced T cost w (dist c w i) (int i) (int j))"
    and "\<And>j. j < nc \<Longrightarrow> shortestPathCosts w ! j \<noteq> PInf \<Longrightarrow>
        0 \<le> path w ! j \<and> nat (path w ! j) < nr \<and> SR w ! nat (path w ! j) \<and>
        shortestPathCosts w ! j =
          reduced T cost w (dist c w (nat (path w ! j))) (path w ! j) (int j)"
    and "\<And>j. j < nc \<Longrightarrow> \<not> SC w ! j \<Longrightarrow> dle m (shortestPathCosts w ! j)"
  using assms unfolding dcore_def by blast+

lemma duals_okD:
  assumes "duals_ok T cost nr nc c w"
  shows "\<And>i. i < nr \<Longrightarrow> fin (u w ! i)" and "\<And>j. j < nc \<Longrightarrow> fin (v w ! j)"
    and "\<And>i j. i < c \<Longrightarrow> j < nc \<Longrightarrow> dle (dadd (u w ! i) (v w ! j)) (cst T cost i j)"
    and "\<And>i. i < c \<Longrightarrow>
           dadd (u w ! i) (v w ! nat (col4row w ! i)) = cst T cost i (nat (col4row w ! i))"
  using assms unfolding duals_ok_def by blast+

text \<open>The reduced cost of an entry, from finite \<open>minVal\<close> and duals.\<close>

lemma red_cases:
  assumes "fin m" and "fin a" and "fin b" and "c = PInf \<or> fin c"
  obtains "c = PInf" "dsub (dsub (dadd m c) a) b = PInf"
  | mr k ar br where "m = Fin mr" "c = Fin k" "a = Fin ar" "b = Fin br"
      "dsub (dsub (dadd m c) a) b = Fin (mr + k - ar - br)"
proof -
  from assms(1-3) obtain mr ar br where f: "m = Fin mr" "a = Fin ar" "b = Fin br"
    by (auto simp: fin_def)
  from assms(4) show ?thesis
  proof
    assume "c = PInf"
    with f that(1) show ?thesis by simp
  next
    assume "fin c"
    then obtain k where "c = Fin k" by (auto simp: fin_def)
    with f that(2) show ?thesis by simp
  qed
qed


lemma reduced_cong:
  "u w' = u w \<Longrightarrow> v w' = v w \<Longrightarrow> reduced T cost w' m i j = reduced T cost w m i j"
  by (simp add: reduced_def)

lemma duals_ok_cong:
  assumes "duals_ok T cost nr nc c w" and "u w' = u w" and "v w' = v w" and "col4row w' = col4row w"
  shows "duals_ok T cost nr nc c w'"
  using assms unfolding duals_ok_def by simp

lemma relax_cases:
  obtains "relax old r = r" "dless r old" | "relax old r = old" "\<not> dless r old"
  by (cases "dless r old") (simp_all add: relax_def)

lemma search_step_dual:
  assumes S1: "searching nr nc c i n w" and V: "view_ok T cost nr nc"
    and D: "dcore T cost nr nc c m w" and mi: "m = dist c w (nat i)"
    and st: "i = int c \<longrightarrow> (\<forall>j<nc. \<not> SC w ! j)"
    and step: "search_step T cost (m, i, n, w) = Some r"
  shows "case r of Inl (sink, m', w') \<Rightarrow> sink = - 1 \<or> dcore T cost nr nc c m' w'
         | Inr (m', i', n', w') \<Rightarrow>
             dcore T cost nr nc c m' w' \<and> m' = dist c w' (nat i') \<and> i' \<noteq> int c"
proof (cases "\<exists>w1. r = Inl (- 1, PInf, w1)")
  case True
  then show ?thesis by auto
next
  case False
  then have go: "\<And>w1. r \<noteq> Inl (- 1, PInf, w1)" by blast
  from S1 have M: "matching nr nc c w" and c: "c < nr"
    and RO: "\<And>k. k < nr \<Longrightarrow> SR w ! k \<Longrightarrow> k = c \<or> (k < c \<and> SC w ! nat (col4row w ! k))"
    and i: "0 \<le> i" "nat i < nr"
    and ic: "i = int c \<or> (nat i < c \<and> SC w ! nat (col4row w ! nat i))"
    unfolding searching_def rows_ok_def by blast+
  note Md = matchingD[OF M]
  from Md(1) have L: "length (SR w) = nr" "length (SC w) = nc" unfolding lens_def by blast+
  note Dd = dcoreD[OF D]
  note Od = duals_okD[OF Dd(1)]
  from V have cs: "\<And>a b. a < nr \<Longrightarrow> b < nc \<Longrightarrow> cst T cost a b = PInf \<or> fin (cst T cost a b)"
    unfolding view_ok_def by blast
  define ii where "ii = nat i"
  from i have ii: "ii < nr" "int ii = i" by (simp_all add: ii_def)
  define red where "red j = reduced T cost w m i (int j)" for j
  have red_eq: "red j = dsub (dsub (dadd m (cst T cost ii j)) (u w ! ii)) (v w ! j)" for j
    unfolding red_def ii(2)[symmetric] by (rule reduced_cst)
  have redc: "red j = PInf \<or> fin (red j)" if "j < nc" for j
    unfolding red_eq
    by (rule red_cases[OF Dd(2) Od(1)[OF ii(1)] Od(2)[OF that] cs[OF ii(1) that]]) simp_all
  have colc: "nat (col4row w ! k) < nc" if "k < c" for k using Md(3)[OF that] by simp
  have iic: "ii < c" if "i \<noteq> int c" using ic that by (simp add: ii_def)
  have redm: "dle m (red j)" if ne: "i \<noteq> int c" and j: "j < nc" for j
  proof (rule red_cases[OF Dd(2) Od(1)[OF ii(1)] Od(2)[OF j] cs[OF ii(1) j]])
    assume "dsub (dsub (dadd m (cst T cost ii j)) (u w ! ii)) (v w ! j) = PInf"
    with Dd(2) show ?thesis unfolding red_eq by (auto elim: finE)
  next
    fix mr k ar br
    assume e: "m = Fin mr" "cst T cost ii j = Fin k" "u w ! ii = Fin ar" "v w ! j = Fin br"
      "dsub (dsub (dadd m (cst T cost ii j)) (u w ! ii)) (v w ! j) = Fin (mr + k - ar - br)"
    from Od(3)[OF iic[OF ne] j] e have "ar + br \<le> k" by simp
    with e show ?thesis unfolding red_eq by simp
  qed
  obtain S P jx lowest w2 where
    low0: "lowest \<noteq> PInf" and low1: "lowest \<noteq> NaN" and
    len0: "length S = nc" and len1: "length P = nc" and
    jx0: "jx < nc" and jx1: "\<not> SC w ! jx" and jx2: "S ! jx = lowest" and
    old: "\<And>j. j < nc \<Longrightarrow> SC w ! j \<Longrightarrow> S ! j = shortestPathCosts w ! j \<and> P ! j = path w ! j" and
    new0: "\<And>j. j < nc \<Longrightarrow> \<not> SC w ! j \<Longrightarrow>
       S ! j = relax (shortestPathCosts w ! j) (reduced T cost w m i (int j)) \<and>
       ((P ! j = path w ! j \<and> S ! j = shortestPathCosts w ! j) \<or>
        (P ! j = i \<and> S ! j = reduced T cost w m i (int j) \<and>
         dless (S ! j) (shortestPathCosts w ! j)))" and
    nlow: "\<And>j. j < nc \<Longrightarrow> \<not> SC w ! j \<Longrightarrow> \<not> dless (S ! j) lowest" and
    f0: "u w2 = u w" and f1: "v w2 = v w" and f2: "col4row w2 = col4row w" and
    f3: "row4col w2 = row4col w" and
    f4: "SR w2 = (SR w)[nat i := True]" and f5: "SC w2 = (SC w)[jx := True]" and
    f6: "path w2 = P" and f7: "shortestPathCosts w2 = S" and
    r: "r = (if row4col w ! jx = - 1 then Inl (int jx, lowest, w2)
          else Inr (lowest, row4col w ! jx, n - 1, w2))"
    by (rule search_step_effect[OF S1 step go]) (rule that; assumption)
  note low = low0 low1 and len = len0 len1 and jx = jx0 jx1 jx2
    and f = f0 f1 f2 f3 f4 f5 f6 f7
  note new = new0[folded red_def]
  have spn: "shortestPathCosts w ! j \<noteq> NaN" if "j < nc" for j
    using Dd(3)[OF that] by (auto elim: finE)
  have redn: "red j \<noteq> NaN" if "j < nc" for j
    using redc[OF that] by (auto elim: finE)
  have Sle: "dle (S ! j) (shortestPathCosts w ! j)" if j: "j < nc" for j
  proof (cases "SC w ! j")
    case True
    with old[OF j] spn[OF j] show ?thesis by (simp add: dle_refl)
  next
    case False
    from new[OF j False] spn[OF j] show ?thesis by (auto simp: dle_refl dless_dle)
  qed
  have Sc: "S ! j = PInf \<or> fin (S ! j)" if j: "j < nc" for j
  proof (cases "SC w ! j")
    case True
    with old[OF j] Dd(3)[OF j] show ?thesis by simp
  next
    case False
    from new[OF j False] have "S ! j = shortestPathCosts w ! j \<or> S ! j = red j" by blast
    with Dd(3)[OF j] redc[OF j] show ?thesis by auto
  qed
  have Sn: "S ! j \<noteq> NaN" if "j < nc" for j using Sc[OF that] by (auto elim: finE)
  from Sc[OF jx(1)] jx(3) low have flow: "fin lowest" by simp
  have mlow: "dle m lowest" if ne: "i \<noteq> int c"
  proof -
    from new[OF jx(1,2)] have "S ! jx = shortestPathCosts w ! jx \<or> S ! jx = red jx" by blast
    with Dd(7)[OF jx(1,2)] redm[OF ne jx(1)] jx(3) show ?thesis by auto
  qed
  have srn: "SR w2 ! k \<longleftrightarrow> k = ii \<or> SR w ! k" if "k < nr" for k
    using that L f(5) by (cases "k = ii") (simp_all add: ii_def)
  have scn: "SC w2 ! k \<longleftrightarrow> k = jx \<or> SC w ! k" if "k < nc" for k
    using that L f(6) jx(1) by (cases "k = jx") simp_all
  have rows: "k = c \<or> (k < c \<and> SC w ! nat (col4row w ! k))" if "k < nr" "SR w2 ! k" for k
  proof (cases "k = ii")
    case True
    with ic show ?thesis by (auto simp: ii_def)
  next
    case False
    with srn[OF that(1)] that(2) RO[OF that(1)] show ?thesis by simp
  qed
  have distK: "dist c w2 k = dist c w k" if "k = c \<or> (k < c \<and> SC w ! nat (col4row w ! k))" for k
  proof (cases "k = c")
    case True
    then show ?thesis by (simp add: dist_def)
  next
    case False
    with that have k: "k < c" "SC w ! nat (col4row w ! k)" by simp_all
    from old[OF colc[OF k(1)] k(2)] False show ?thesis by (simp add: dist_def f)
  qed
  have redw2: "reduced T cost w2 x a b = reduced T cost w x a b" for x a b
    by (rule reduced_cong[OF f(1,2)])
  have F2: "fin (S ! j) \<and> dle (S ! j) lowest" if j: "j < nc" and sc: "SC w2 ! j" for j
  proof (cases "j = jx")
    case True
    with jx(3) flow low show ?thesis by (simp add: dle_refl)
  next
    case False
    with scn[OF j] sc have scj: "SC w ! j" by simp
    with st j have ne: "i \<noteq> int c" by blast
    from Dd(4)[OF j scj] have a: "fin (shortestPathCosts w ! j)" "dle (shortestPathCosts w ! j) m"
      by simp_all
    from dle_trans[OF a(2) mlow[OF ne]] a(1) old[OF j scj] show ?thesis by simp
  qed
  have F3: "dle (S ! j) (reduced T cost w (dist c w k) (int k) (int j))"
    if k: "k < nr" and sr: "SR w2 ! k" and j: "j < nc" for k j
  proof (cases "SR w ! k")
    case True
    from Dd(5)[OF k True j] Sle[OF j] show ?thesis by (rule dle_trans[rotated])
  next
    case False
    with srn[OF k] sr have kk: "k = ii" by simp
    have "dle (S ! j) (red j)"
    proof (cases "SC w ! j")
      case True
      with st j have ne: "i \<noteq> int c" by blast
      from Dd(4)[OF j True] have a: "dle (shortestPathCosts w ! j) m" by simp
      from dle_trans[OF a redm[OF ne j]] old[OF j True] show ?thesis by simp
    next
      case False
      from new[OF j False] have e: "S ! j = relax (shortestPathCosts w ! j) (red j)" by blast
      show ?thesis
      proof (rule relax_cases[of "shortestPathCosts w ! j" "red j"])
        assume "relax (shortestPathCosts w ! j) (red j) = red j"
        with e redn[OF j] show ?thesis by (simp add: dle_refl)
      next
        assume a: "relax (shortestPathCosts w ! j) (red j) = shortestPathCosts w ! j"
          "\<not> dless (red j) (shortestPathCosts w ! j)"
        from not_dless_dle[OF a(2) redn[OF j] spn[OF j]] e a(1) show ?thesis by simp
      qed
    qed
    with kk mi ii show ?thesis unfolding red_def by (simp add: ii_def)
  qed
  have F4: "0 \<le> P ! j \<and> nat (P ! j) < nr \<and> SR w2 ! nat (P ! j) \<and>
        S ! j = reduced T cost w (dist c w2 (nat (P ! j))) (P ! j) (int j)"
    if j: "j < nc" and ne: "S ! j \<noteq> PInf" for j
  proof -
    have keep: ?thesis if e: "P ! j = path w ! j" "S ! j = shortestPathCosts w ! j"
    proof -
      from Dd(6)[OF j] ne e have p: "0 \<le> path w ! j" "nat (path w ! j) < nr"
        "SR w ! nat (path w ! j)"
        "shortestPathCosts w ! j =
          reduced T cost w (dist c w (nat (path w ! j))) (path w ! j) (int j)" by simp_all
      from srn[OF p(2)] p(3) have s2: "SR w2 ! nat (path w ! j)" by simp
      from distK[OF rows[OF p(2) s2]] p e s2 show ?thesis by simp
    qed
    show ?thesis
    proof (cases "SC w ! j")
      case True
      from old[OF j True] keep show ?thesis by simp
    next
      case False
      from new[OF j False] consider "P ! j = path w ! j" "S ! j = shortestPathCosts w ! j"
        | "P ! j = i" "S ! j = red j" by blast
      then show ?thesis
      proof cases
        case 1
        then show ?thesis by (rule keep)
      next
        case 2
        from srn[OF ii(1)] have s2: "SR w2 ! ii" by simp
        from distK[OF rows[OF ii(1) s2]] mi have dm: "dist c w2 ii = m" by (simp add: ii_def)
        from 2(1) i(1) have a: "0 \<le> P ! j" by simp
        from 2(1) i(2) have b: "nat (P ! j) < nr" by simp
        from 2(1) s2 have d: "SR w2 ! nat (P ! j)" by (simp add: ii_def)
        from 2 dm have e: "S ! j = reduced T cost w (dist c w2 (nat (P ! j))) (P ! j) (int j)"
          unfolding red_def by (simp add: ii_def)
        from a b d e show ?thesis by blast
      qed
    qed
  qed
  have F5: "dle lowest (S ! j)" if j: "j < nc" and sc: "\<not> SC w2 ! j" for j
  proof -
    from scn[OF j] sc have "\<not> SC w ! j" by simp
    from not_dless_dle[OF nlow[OF j this] Sn[OF j] low(2)] show ?thesis .
  qed
  have core: "dcore T cost nr nc c lowest w2"
    unfolding dcore_def f(7,8) redw2
  proof (intro conjI allI impI)
    show "duals_ok T cost nr nc c w2" by (rule duals_ok_cong[OF Dd(1) f(1,2,3)])
    show "fin lowest" by (rule flow)
  next
    fix j assume "j < nc"
    then show "S ! j = PInf \<or> fin (S ! j)" by (rule Sc)
  next
    fix j assume "j < nc" "SC w2 ! j"
    then show "fin (S ! j)" "dle (S ! j) lowest" using F2 by blast+
  next
    fix k j assume k: "k < nr" "SR w2 ! k" and j: "j < nc"
    from F3[OF k j] distK[OF rows[OF k]]
    show "dle (S ! j) (reduced T cost w (dist c w2 k) (int k) (int j))" by simp
  next
    fix j assume "j < nc" "S ! j \<noteq> PInf"
    then show "0 \<le> P ! j" "nat (P ! j) < nr" "SR w2 ! nat (P ! j)"
      "S ! j = reduced T cost w (dist c w2 (nat (P ! j))) (P ! j) (int j)"
      using F4 by blast+
  next
    fix j assume "j < nc" "\<not> SC w2 ! j"
    then show "dle lowest (S ! j)" by (rule F5)
  qed
  show ?thesis
  proof (cases "row4col w ! jx = - 1")
    case True
    with r core show ?thesis by simp
  next
    case False
    from Md(5)[OF jx(1) False] have i': "0 \<le> row4col w ! jx" "nat (row4col w ! jx) < c"
      "col4row w ! nat (row4col w ! jx) = int jx" by simp_all
    then have "dist c w2 (nat (row4col w ! jx)) = lowest"
      using jx(3) by (simp add: dist_def f)
    moreover from i' have "row4col w ! jx \<noteq> int c" by auto
    ultimately show ?thesis using False r core by simp
  qed
qed


lemma search_loop_dual:
  assumes "searching nr nc c i n w" and "view_ok T cost nr nc"
    and "dcore T cost nr nc c m w" and "m = dist c w (nat i)"
    and "i = int c \<longrightarrow> (\<forall>j<nc. \<not> SC w ! j)"
    and "search_loop T cost (m, i, n, w) = Some (sink, m', w')"
  shows "sink = - 1 \<or> dcore T cost nr nc c m' w'"
  using assms
proof (induction T cost "(m, i, n, w)" arbitrary: m i n w rule: search_loop.induct)
  case (1 T cost)
  from "1.prems"(6) obtain r where r: "search_step T cost (m, i, n, w) = Some r"
    by (subst (asm) search_loop.simps) (auto split: option.splits)
  note st = search_step_searching[OF "1.prems"(1) r]
  note sd = search_step_dual[OF "1.prems"(1-5) r]
  show ?case
  proof (cases r)
    case (Inl x)
    with r "1.prems"(6) have "x = (sink, m', w')"
      by (subst (asm) search_loop.simps) simp
    with sd Inl show ?thesis by simp
  next
    case (Inr s')
    obtain m1 i1 n1 w1 where s': "s' = (m1, i1, n1, w1)" by (cases s')
    from r Inr "1.prems"(6) have run: "search_loop T cost (m1, i1, n1, w1) = Some (sink, m', w')"
      by (subst (asm) search_loop.simps) (simp add: s')
    from st Inr s' have a: "searching nr nc c i1 n1 w1" by simp
    from sd[unfolded Inr s' sum.case prod.case]
    have b: "dcore T cost nr nc c m1 w1" "m1 = dist c w1 (nat i1)"
      "i1 = int c \<longrightarrow> (\<forall>j<nc. \<not> SC w1 ! j)" by blast+
    from "1.hyps"[OF r Inr[unfolded s'] a "1.prems"(2) b run] show ?thesis .
  qed
qed

lemma augmenting_path_dual:
  assumes M: "matching nr nc c w" and c: "c < nr" and V: "view_ok T cost nr nc"
    and D: "duals_ok T cost nr nc c w"
    and run: "augmenting_path T (int nc) cost w (int c) = Some (sink, m, w')"
  shows "sink = - 1 \<or> dcore T cost nr nc c m w'"
proof -
  from run obtain rem where
    rem: "for_loop 0 (int nc) (\<lambda>it rem. wr rem it (int nc - it - 1)) (remaining w) = Some rem" and
    loop: "search_loop T cost (Fin 0, int c, int nc,
        w\<lparr> remaining := rem,
           SR := replicate (length (SR w)) False,
           SC := replicate (length (SC w)) False,
           shortestPathCosts := replicate (length (shortestPathCosts w)) PInf \<rparr>) = Some (sink, m, w')"
    unfolding augmenting_path_def by (elim bindE) (rule that; assumption)
  let ?w = "w\<lparr> remaining := rem,
           SR := replicate (length (SR w)) False,
           SC := replicate (length (SC w)) False,
           shortestPathCosts := replicate (length (shortestPathCosts w)) PInf \<rparr>"
  from matchingD(1)[OF M] have L: "length (remaining w) = nc" "length (SR w) = nr"
    "length (SC w) = nc" "length (shortestPathCosts w) = nc" by (simp_all add: lens_def)
  from fill_remaining[OF L(1)] rem have "length rem = nc" "\<forall>k<nc. rem ! k = int nc - int k - 1"
    by auto
  note S = searching_start[OF M c this]
  have D0: "duals_ok T cost nr nc c ?w" by (rule duals_ok_cong[OF D]) simp_all
  have core: "dcore T cost nr nc c (Fin 0) ?w"
    unfolding dcore_def using D0 L by simp
  have d: "Fin 0 = dist c ?w (nat (int c))" by (simp add: dist_def)
  have e: "int c = int c \<longrightarrow> (\<forall>j<nc. \<not> SC ?w ! j)" using L by simp
  from search_loop_dual[OF S V core d e loop] show ?thesis .
qed


lemma update_u_step:
  assumes "update_u c m k t = Some t'"
  shows "SR t' = SR t \<and> SC t' = SC t \<and> col4row t' = col4row t \<and> row4col t' = row4col t \<and>
         shortestPathCosts t' = shortestPathCosts t \<and> path t' = path t \<and> v t' = v t \<and>
         remaining t' = remaining t \<and>
         0 \<le> k \<and> nat k < length (SR t) \<and>
         u t' = (if SR t ! nat k \<and> k \<noteq> c
                 then (u t)[nat k := dadd (u t ! nat k)
                        (dsub m (shortestPathCosts t ! nat (col4row t ! nat k)))]
                 else u t)"
  using assms unfolding update_u_def
  by (auto simp: rd_Some wr_Some split: Option.bind_splits if_splits)

lemma update_v_step:
  assumes "update_v m k t = Some t'"
  shows "SR t' = SR t \<and> SC t' = SC t \<and> col4row t' = col4row t \<and> row4col t' = row4col t \<and>
         shortestPathCosts t' = shortestPathCosts t \<and> path t' = path t \<and> u t' = u t \<and>
         remaining t' = remaining t \<and>
         0 \<le> k \<and> nat k < length (SC t) \<and>
         v t' = (if SC t ! nat k
                 then (v t)[nat k := dsub (v t ! nat k) (dsub m (shortestPathCosts t ! nat k))]
                 else v t)"
  using assms unfolding update_v_def
  by (auto simp: rd_Some wr_Some split: Option.bind_splits if_splits)

lemma update_duals_effect:
  assumes ud: "update_duals (int nr) (int nc) (int c) m w = Some w'"
    and L: "lens nr nc w" and c: "c < nr"
  shows "\<And>i. i < nr \<Longrightarrow> u w' ! i =
           (if i = c then dadd (u w ! c) m
            else if SR w ! i
              then dadd (u w ! i) (dsub m (shortestPathCosts w ! nat (col4row w ! i)))
              else u w ! i)"
    and "\<And>j. j < nc \<Longrightarrow> v w' ! j =
           (if SC w ! j then dsub (v w ! j) (dsub m (shortestPathCosts w ! j)) else v w ! j)"
proof -
  from L have len: "length (u w) = nr" "length (v w) = nc" "length (SR w) = nr"
    "length (SC w) = nc" by (simp_all add: lens_def)
  from ud[unfolded update_duals_def] obtain uc U0 w1 where
    a: "rd (u w) (int c) = Some uc" and b: "wr (u w) (int c) (dadd uc m) = Some U0" and
    l1: "for_loop 0 (int nr) (update_u (int c) m) (w\<lparr>u := U0\<rparr>) = Some w1" and
    l2: "for_loop 0 (int nc) (update_v m) w1 = Some w'"
    by (elim bindE) (rule that; assumption)
  from a b have U0: "U0 = (u w)[c := dadd (u w ! c) m]" by (auto simp: rd_Some wr_Some)
  define nu where "nu i = (if i = c then dadd (u w ! c) m
            else if SR w ! i
              then dadd (u w ! i) (dsub m (shortestPathCosts w ! nat (col4row w ! i)))
              else u w ! i)" for i
  define nv where "nv j = (if SC w ! j then dsub (v w ! j) (dsub m (shortestPathCosts w ! j))
                           else v w ! j)" for j
  let ?I = "\<lambda>(k::int) x. SR x = SR w \<and> SC x = SC w \<and> col4row x = col4row w \<and>
       shortestPathCosts x = shortestPathCosts w \<and> v x = v w \<and> length (u x) = nr \<and>
       (\<forall>i<nr. u x ! i = (if int i < k then nu i else U0 ! i))"
  have "?I (int nr) w1"
  proof (rule for_loop_rule[OF l1, where I = ?I])
    show "?I 0 (w\<lparr>u := U0\<rparr>)" using len U0 by simp
    show "0 \<le> int nr" by simp
  next
    fix k t t' assume k: "0 \<le> k" "k < int nr" and I: "?I k t"
      and st: "update_u (int c) m k t = Some t'"
    note e = update_u_step[OF st]
    from k have kn: "nat k < nr" by simp
    have "u t' ! i = (if int i < k + 1 then nu i else U0 ! i)" if i: "i < nr" for i
    proof (cases "i = nat k")
      case True
      with k have ik: "int i = k" by simp
      from I i have ui: "u t ! i = U0 ! i" using ik by simp
      show ?thesis
      proof (cases "i = c")
        case True
        with e ik ui U0 len c show ?thesis by (simp add: nu_def)
      next
        case False
        with ik have kc: "k \<noteq> int c" by auto
        from False U0 have "U0 ! i = u w ! i" by simp
        with e I ik ui kc i \<open>i = nat k\<close> False show ?thesis
          by (auto simp: nu_def)
      qed
    next
      case False
      with e I i have "u t' ! i = u t ! i" by (auto simp: nth_list_update)
      moreover from False k have "int i < k + 1 \<longleftrightarrow> int i < k" by auto
      ultimately show ?thesis using I i by simp
    qed
    moreover from e I have "length (u t') = nr" by (auto split: if_splits)
    ultimately show "?I (k + 1) t'" using e I by simp
  qed
  then have w1: "SR w1 = SR w" "SC w1 = SC w" "col4row w1 = col4row w"
    "shortestPathCosts w1 = shortestPathCosts w" "v w1 = v w" "length (u w1) = nr"
    "\<And>i. i < nr \<Longrightarrow> u w1 ! i = nu i" by simp_all
  let ?J = "\<lambda>(k::int) x. SC x = SC w \<and> shortestPathCosts x = shortestPathCosts w \<and>
       u x = u w1 \<and> length (v x) = nc \<and>
       (\<forall>j<nc. v x ! j = (if int j < k then nv j else v w ! j))"
  have "?J (int nc) w'"
  proof (rule for_loop_rule[OF l2, where I = ?J])
    show "?J 0 w1" using len w1 by simp
    show "0 \<le> int nc" by simp
  next
    fix k t t' assume k: "0 \<le> k" "k < int nc" and J: "?J k t"
      and st: "update_v m k t = Some t'"
    note e = update_v_step[OF st]
    have "v t' ! j = (if int j < k + 1 then nv j else v w ! j)" if j: "j < nc" for j
    proof (cases "j = nat k")
      case True
      with k have jk: "int j = k" by simp
      from J j have vj: "v t ! j = v w ! j" using jk by simp
      from e J jk vj j True show ?thesis by (auto simp: nv_def)
    next
      case False
      with e J j have "v t' ! j = v t ! j" by (auto simp: nth_list_update)
      moreover from False k have "int j < k + 1 \<longleftrightarrow> int j < k" by auto
      ultimately show ?thesis using J j by simp
    qed
    moreover from e J have "length (v t') = nc" by (auto split: if_splits)
    ultimately show "?J (k + 1) t'" using e J by simp
  qed
  then have w': "u w' = u w1" "\<And>j. j < nc \<Longrightarrow> v w' ! j = nv j" by simp_all
  show "\<And>i. i < nr \<Longrightarrow> u w' ! i =
           (if i = c then dadd (u w ! c) m
            else if SR w ! i
              then dadd (u w ! i) (dsub m (shortestPathCosts w ! nat (col4row w ! i)))
              else u w ! i)"
    using w'(1) w1(7) by (simp add: nu_def)
  show "\<And>j. j < nc \<Longrightarrow> v w' ! j =
           (if SC w ! j then dsub (v w ! j) (dsub m (shortestPathCosts w ! j)) else v w ! j)"
    using w'(2) by (simp add: nv_def)
qed


lemma feas_arith_SR:
  assumes "fin m" "fin a" "fin b" "fin d" and C: "C = PInf \<or> fin C"
    and s: "s = PInf \<or> fin s" and le: "dle s (dsub (dsub (dadd d C) a) b)"
    and sc: "sc \<longrightarrow> fin s" and nsc: "\<not> sc \<longrightarrow> dle m s"
  shows "dle (dadd (dadd a (dsub m d)) (if sc then dsub b (dsub m s) else b)) C"
proof -
  from assms(1-4) obtain mr ar br dr where e: "m = Fin mr" "a = Fin ar" "b = Fin br" "d = Fin dr"
    by (auto simp: fin_def)
  from C show ?thesis
  proof
    assume "C = PInf"
    with e sc show ?thesis by (cases sc) (auto elim!: finE)
  next
    assume "fin C"
    then obtain k where k: "C = Fin k" by (auto simp: fin_def)
    from s show ?thesis
    proof
      assume "s = PInf"
      with le e k show ?thesis by simp
    next
      assume "fin s"
      then obtain sr where "s = Fin sr" by (auto simp: fin_def)
      with le e k nsc show ?thesis by (cases sc) auto
    qed
  qed
qed

lemma feas_arith_nSR:
  assumes "fin m" "fin a" "fin b" and C: "C = PInf \<or> fin C"
    and le: "dle (dadd a b) C" and sc: "sc \<longrightarrow> fin s \<and> dle s m"
  shows "dle (dadd a (if sc then dsub b (dsub m s) else b)) C"
proof -
  from assms(1-3) obtain mr ar br where e: "m = Fin mr" "a = Fin ar" "b = Fin br"
    by (auto simp: fin_def)
  show ?thesis
  proof (cases sc)
    case False
    with le show ?thesis by simp
  next
    case True
    with sc obtain sr where s: "s = Fin sr" "dle s m" by (auto simp: fin_def)
    from C show ?thesis
    proof
      assume "C = PInf"
      with e s True show ?thesis by simp
    next
      assume "fin C"
      then obtain k where "C = Fin k" by (auto simp: fin_def)
      with e s True le show ?thesis by simp
    qed
  qed
qed

lemma tight_arith:
  assumes "fin m" "fin a" "fin b" "fin s"
  shows "dadd (dadd a (dsub m s)) (dsub b (dsub m s)) = dadd a b"
  using assms by (auto simp: fin_def)

lemma edge_arith:
  assumes "fin m" "fin a" "fin b" "fin d" "fin s" and C: "C = PInf \<or> fin C"
    and e: "s = dsub (dsub (dadd d C) a) b"
  shows "dadd (dadd a (dsub m d)) (dsub b (dsub m s)) = C"
proof -
  from assms(1-5) obtain mr ar br dr sr where
    f: "m = Fin mr" "a = Fin ar" "b = Fin br" "d = Fin dr" "s = Fin sr"
    by (auto simp: fin_def)
  from C show ?thesis
  proof
    assume "C = PInf"
    with e f show ?thesis by simp
  next
    assume "fin C"
    then obtain k where "C = Fin k" by (auto simp: fin_def)
    with e f show ?thesis by simp
  qed
qed


definition feasible :: "'a dtype \<Rightarrow> 'a matrix2d \<Rightarrow> nat \<Rightarrow> nat \<Rightarrow> workspace \<Rightarrow> bool" where
  "feasible T cost nc n w \<longleftrightarrow>
     (\<forall>i<n. \<forall>j<nc. dle (dadd (u w ! i) (v w ! j)) (cst T cost i j))"

definition tight :: "'a dtype \<Rightarrow> 'a matrix2d \<Rightarrow> nat \<Rightarrow> workspace \<Rightarrow> bool" where
  "tight T cost n w \<longleftrightarrow>
     (\<forall>i<n. dadd (u w ! i) (v w ! nat (col4row w ! i)) = cst T cost i (nat (col4row w ! i)))"

lemma duals_ok_iff:
  "duals_ok T cost nr nc c w \<longleftrightarrow>
     (\<forall>i<nr. fin (u w ! i)) \<and> (\<forall>j<nc. fin (v w ! j)) \<and>
     feasible T cost nc c w \<and> tight T cost c w"
  by (simp add: duals_ok_def feasible_def tight_def)

lemma update_duals_dual:
  assumes F: "found nr nc c sink w" and D: "dcore T cost nr nc c m w"
    and V: "view_ok T cost nr nc"
    and ud: "update_duals (int nr) (int nc) (int c) m w = Some w'"
  shows "(\<forall>i<nr. fin (u w' ! i)) \<and> (\<forall>j<nc. fin (v w' ! j))"
    and "feasible T cost nc (Suc c) w'" and "tight T cost c w'"
    and "\<And>j. j < nc \<Longrightarrow> SC w ! j \<Longrightarrow>
           0 \<le> path w ! j \<and>
           dadd (u w' ! nat (path w ! j)) (v w' ! j) = cst T cost (nat (path w ! j)) j"
proof -
  from F have M: "matching nr nc c w" and c: "c < nr"
    and RO: "\<And>k. k < nr \<Longrightarrow> SR w ! k \<Longrightarrow> k = c \<or> (k < c \<and> SC w ! nat (col4row w ! k))"
    and src: "SR w ! c"
    and sink: "0 \<le> sink" "nat sink < nc" "row4col w ! nat sink = - 1" "SC w ! nat sink"
    and SCm: "\<And>j. j < nc \<Longrightarrow> SC w ! j \<Longrightarrow>
        j = nat sink \<or> (row4col w ! j \<noteq> - 1 \<and> SR w ! nat (row4col w ! j))"
    unfolding found_def rows_ok_def by blast+
  note Md = matchingD[OF M]
  note Dd = dcoreD[OF D]
  note Od = duals_okD[OF Dd(1)]
  from V have cs: "\<And>a b. a < nr \<Longrightarrow> b < nc \<Longrightarrow> cst T cost a b = PInf \<or> fin (cst T cost a b)"
    unfolding view_ok_def by blast
  note eff = update_duals_effect[OF ud Md(1) c]
  have colc: "nat (col4row w ! k) < nc" if "k < c" for k using Md(3)[OF that] by simp
  have fd: "fin (dist c w k)" if k: "k < nr" "SR w ! k" for k
  proof (cases "k = c")
    case True
    then show ?thesis by (simp add: dist_def)
  next
    case False
    with RO[OF k] have "k < c" "SC w ! nat (col4row w ! k)" by simp_all
    with Dd(4)[OF colc] False show ?thesis by (simp add: dist_def)
  qed
  have unew: "u w' ! k = dadd (u w ! k) (dsub m (dist c w k))" if k: "k < nr" "SR w ! k" for k
  proof (cases "k = c")
    case True
    from Dd(2) Od(1)[OF c] have "dadd (u w ! c) m = dadd (u w ! c) (dsub m (Fin 0))"
      by (auto simp: fin_def)
    with eff(1)[OF k(1)] True show ?thesis by (simp add: dist_def)
  next
    case False
    with eff(1)[OF k(1)] k(2) show ?thesis by (simp add: dist_def)
  qed
  have uold: "u w' ! k = u w ! k" if k: "k < nr" "\<not> SR w ! k" for k
  proof -
    from k src have "k \<noteq> c" by auto
    with eff(1)[OF k(1)] k(2) show ?thesis by simp
  qed
  have fs: "fin (shortestPathCosts w ! j)" if "j < nc" "SC w ! j" for j
    using Dd(4)[OF that] by simp
  have fu: "fin (u w' ! k)" if k: "k < nr" for k
  proof (cases "SR w ! k")
    case True
    from unew[OF k True] fd[OF k True] Od(1)[OF k] Dd(2) show ?thesis by (auto simp: fin_def)
  next
    case False
    from uold[OF k False] Od(1)[OF k] show ?thesis by simp
  qed
  have fv: "fin (v w' ! j)" if j: "j < nc" for j
  proof (cases "SC w ! j")
    case True
    from eff(2)[OF j] True fs[OF j True] Od(2)[OF j] Dd(2) show ?thesis by (auto simp: fin_def)
  next
    case False
    from eff(2)[OF j] False Od(2)[OF j] show ?thesis by simp
  qed
  from fu fv show "(\<forall>i<nr. fin (u w' ! i)) \<and> (\<forall>j<nc. fin (v w' ! j))" by blast
  show "feasible T cost nc (Suc c) w'"
    unfolding feasible_def
  proof (intro allI impI)
    fix k j assume kc: "k < Suc c" and j: "j < nc"
    with c have k: "k < nr" by simp
    show "dle (dadd (u w' ! k) (v w' ! j)) (cst T cost k j)"
    proof (cases "SR w ! k")
      case True
      have "dle (dadd (dadd (u w ! k) (dsub m (dist c w k)))
              (if SC w ! j then dsub (v w ! j) (dsub m (shortestPathCosts w ! j)) else v w ! j))
            (cst T cost k j)"
      proof (rule feas_arith_SR[OF Dd(2) Od(1)[OF k] Od(2)[OF j] fd[OF k True] cs[OF k j] Dd(3)[OF j]])
        from Dd(5)[OF k True j]
        show "dle (shortestPathCosts w ! j)
               (dsub (dsub (dadd (dist c w k) (cst T cost k j)) (u w ! k)) (v w ! j))"
          by (simp add: reduced_cst)
        show "SC w ! j \<longrightarrow> fin (shortestPathCosts w ! j)" using fs[OF j] by blast
        show "\<not> SC w ! j \<longrightarrow> dle m (shortestPathCosts w ! j)" using Dd(7)[OF j] by blast
      qed
      with unew[OF k True] eff(2)[OF j] show ?thesis by simp
    next
      case False
      with src have "k \<noteq> c" by auto
      with kc have kc': "k < c" by simp
      have "dle (dadd (u w ! k)
              (if SC w ! j then dsub (v w ! j) (dsub m (shortestPathCosts w ! j)) else v w ! j))
            (cst T cost k j)"
      proof (rule feas_arith_nSR[OF Dd(2) Od(1)[OF k] Od(2)[OF j] cs[OF k j] Od(3)[OF kc' j]])
        show "SC w ! j \<longrightarrow> fin (shortestPathCosts w ! j) \<and> dle (shortestPathCosts w ! j) m"
          using Dd(4)[OF j] by blast
      qed
      with uold[OF k False] eff(2)[OF j] show ?thesis by simp
    qed
  qed
  show "tight T cost c w'"
    unfolding tight_def
  proof (intro allI impI)
    fix k assume kc: "k < c"
    with c have k: "k < nr" by simp
    let ?j = "nat (col4row w ! k)"
    from colc[OF kc] have j: "?j < nc" .
    from Md(3)[OF kc] have r4c: "row4col w ! ?j = int k" by simp
    from ud have c4r: "col4row w' = col4row w"
      using update_duals_only[OF ud] by (simp add: duals_only_def)
    have iff: "SR w ! k \<longleftrightarrow> SC w ! ?j"
    proof
      assume "SR w ! k"
      with RO[OF k] kc show "SC w ! ?j" by auto
    next
      assume sc: "SC w ! ?j"
      from r4c sink(3) have "?j \<noteq> nat sink" by auto
      with SCm[OF j sc] r4c show "SR w ! k" by simp
    qed
    show "dadd (u w' ! k) (v w' ! nat (col4row w' ! k)) = cst T cost k (nat (col4row w' ! k))"
    proof (cases "SR w ! k")
      case True
      with iff have sc: "SC w ! ?j" by simp
      from kc have "dist c w k = shortestPathCosts w ! ?j" by (simp add: dist_def)
      with unew[OF k True] eff(2)[OF j] sc
        tight_arith[OF Dd(2) Od(1)[OF k] Od(2)[OF j] fs[OF j sc]] Od(4)[OF kc] c4r
      show ?thesis by simp
    next
      case False
      with iff have "\<not> SC w ! ?j" by simp
      with uold[OF k False] eff(2)[OF j] Od(4)[OF kc] c4r show ?thesis by simp
    qed
  qed
  show "0 \<le> path w ! j \<and>
        dadd (u w' ! nat (path w ! j)) (v w' ! j) = cst T cost (nat (path w ! j)) j"
    if j: "j < nc" and sc: "SC w ! j" for j
  proof -
    from fs[OF j sc] have ne: "shortestPathCosts w ! j \<noteq> PInf" by auto
    from Dd(6)[OF j ne] have p: "0 \<le> path w ! j" "nat (path w ! j) < nr"
      "SR w ! nat (path w ! j)"
      "shortestPathCosts w ! j =
          reduced T cost w (dist c w (nat (path w ! j))) (path w ! j) (int j)" by simp_all
    let ?p = "nat (path w ! j)"
    from p(1) have ip: "int ?p = path w ! j" by simp
    have "reduced T cost w (dist c w ?p) (path w ! j) (int j) =
        dsub (dsub (dadd (dist c w ?p) (cst T cost ?p j)) (u w ! ?p)) (v w ! j)"
      using reduced_cst[of T cost w "dist c w ?p" ?p j] by (simp only: ip)
    with p(4) have e: "shortestPathCosts w ! j =
        dsub (dsub (dadd (dist c w ?p) (cst T cost ?p j)) (u w ! ?p)) (v w ! j)"
      by (rule trans)
    from edge_arith[OF Dd(2) Od(1)[OF p(2)] Od(2)[OF j] fd[OF p(2,3)] fs[OF j sc] cs[OF p(2) j] e]
      unew[OF p(2,3)] eff(2)[OF j] sc p(1)
    show ?thesis by simp
  qed
qed


lemma after_update:
  assumes M: "matching nr nc c w" and c: "c < nr" and V: "view_ok T cost nr nc"
    and D: "duals_ok T cost nr nc c w"
    and ap: "augmenting_path T (int nc) cost w (int c) = Some (sink, m, w1)"
    and ns: "\<not> sink < 0"
    and ud: "update_duals (int nr) (int nc) (int c) m w1 = Some w2"
  shows "found nr nc c sink w2"
    and "(\<forall>i<nr. fin (u w2 ! i)) \<and> (\<forall>j<nc. fin (v w2 ! j))"
    and "feasible T cost nc (Suc c) w2" and "tight T cost c w2"
    and "\<And>j. j < nc \<Longrightarrow> SC w2 ! j \<Longrightarrow>
           0 \<le> path w2 ! j \<and>
           dadd (u w2 ! nat (path w2 ! j)) (v w2 ! j) = cst T cost (nat (path w2 ! j)) j"
proof -
  from augmenting_path_found[OF M c ap] ns have F: "found nr nc c sink w1" by auto
  from augmenting_path_dual[OF M c V D ap] ns have C: "dcore T cost nr nc c m w1" by auto
  note do = update_duals_only[OF ud]
  from found_duals_only[OF F do] show "found nr nc c sink w2" .
  note r = update_duals_dual[OF F C V ud]
  from r(1) show "(\<forall>i<nr. fin (u w2 ! i)) \<and> (\<forall>j<nc. fin (v w2 ! j))" .
  from r(2) show "feasible T cost nc (Suc c) w2" .
  from r(3) show "tight T cost c w2" .
  from do have e: "SC w2 = SC w1" "path w2 = path w1" by (simp_all add: duals_only_def)
  show "\<And>j. j < nc \<Longrightarrow> SC w2 ! j \<Longrightarrow>
           0 \<le> path w2 ! j \<and>
           dadd (u w2 ! nat (path w2 ! j)) (v w2 ! j) = cst T cost (nat (path w2 ! j)) j"
    unfolding e by (rule r(4))
qed

lemma main_step_dual:
  assumes M: "matching nr nc c w" and c: "c < nr" and V: "view_ok T cost nr nc"
    and D: "duals_ok T cost nr nc c w"
    and step: "main_step T (int nr) (int nc) cost (int c) w = Some (Inr w')"
  shows "duals_ok T cost nr nc (Suc c) w'"
proof -
  from step obtain sink m w1 where
    ap: "augmenting_path T (int nc) cost w (int c) = Some (sink, m, w1)" and
    a: "sink < 0 \<longrightarrow> Inr w' = (Inl INFEASIBLE :: status + workspace)" and
    b: "\<not> sink < 0 \<longrightarrow> (\<exists>w2 w3. update_duals (int nr) (int nc) (int c) m w1 = Some w2 \<and>
        augment (int c) sink w2 = Some w3 \<and> Inr w' = (Inr w3 :: status + workspace))"
    by (rule main_step_unfold) (rule that; assumption)
  from a have ns: "\<not> sink < 0" by auto
  with b obtain w2 where ud: "update_duals (int nr) (int nc) (int c) m w1 = Some w2"
    and au: "augment (int c) sink w2 = Some w'" by auto
  note r = after_update[OF M c V D ap ns ud]
  from augment_found[OF r(1)] au have A: "augmented nr nc c w2 (nat sink) w'" by auto
  then have M': "matching nr nc (Suc c) w'" and uv: "u w' = u w2" "v w' = v w2"
    and prov: "\<And>i. i < Suc c \<Longrightarrow> (i < c \<and> col4row w' ! i = col4row w2 ! i) \<or>
        (SC w2 ! nat (col4row w' ! i) \<and> path w2 ! nat (col4row w' ! i) = int i)"
    unfolding augmented_def by blast+
  note Md = matchingD[OF M']
  show ?thesis
    unfolding duals_ok_iff
  proof (intro conjI)
    from r(2) uv show "\<forall>i<nr. fin (u w' ! i)" "\<forall>j<nc. fin (v w' ! j)" by simp_all
    from r(3) uv show "feasible T cost nc (Suc c) w'" by (simp add: feasible_def)
    show "tight T cost (Suc c) w'"
      unfolding tight_def
    proof (intro allI impI)
      fix i assume i: "i < Suc c"
      let ?j = "nat (col4row w' ! i)"
      from Md(3)[OF i] have j: "?j < nc" by simp
      from prov[OF i] show "dadd (u w' ! i) (v w' ! ?j) = cst T cost i ?j"
      proof
        assume "i < c \<and> col4row w' ! i = col4row w2 ! i"
        with r(4) uv show ?thesis by (simp add: tight_def)
      next
        assume "SC w2 ! ?j \<and> path w2 ! ?j = int i"
        with r(5)[OF j] uv show ?thesis by simp
      qed
    qed
  qed
qed

lemma duals_ok_init:
  assumes "init_workspace (int nr) (int nc) = Some w0"
  shows "duals_ok T cost nr nc 0 w0"
  using assms by (auto simp: init_workspace_def duals_ok_def)

lemma main_loop_dual:
  assumes W: "init_workspace (int nr) (int nc) = Some w0" and V: "view_ok T cost nr nc"
    and k: "k \<le> nr"
    and run: "for_loop_ret 0 (int k) (main_step T (int nr) (int nc) cost) w0 = Some (Inr t)"
  shows "matching nr nc k t \<and> duals_ok T cost nr nc k t"
proof -
  let ?I = "\<lambda>(j::int) x. 0 \<le> j \<and> matching nr nc (nat j) x \<and> duals_ok T cost nr nc (nat j) x"
  have "case Inr t of Inr s' \<Rightarrow> ?I (int k) s'
        | Inl (e::status) \<Rightarrow> \<exists>j x. 0 \<le> j \<and> j < int k \<and> ?I j x \<and>
            main_step T (int nr) (int nc) cost j x = Some (Inl e)"
  proof (rule for_loop_ret_rule[OF run, where I = ?I])
    show "?I 0 w0" using init_workspace_matching[OF W] duals_ok_init[OF W] by simp
    show "0 \<le> int k" by simp
  next
    fix j x x'
    assume j: "0 \<le> j" "j < int k" and I: "?I j x"
      and st: "main_step T (int nr) (int nc) cost j x = Some (Inr x')"
    from j k have jn: "nat j < nr" "int (nat j) = j" by simp_all
    from I have Mj: "matching nr nc (nat j) x" and Dj: "duals_ok T cost nr nc (nat j) x"
      by simp_all
    from st jn(2) have st': "main_step T (int nr) (int nc) cost (int (nat j)) x = Some (Inr x')"
      by simp
    from main_step_matching[OF Mj jn(1) st'] main_step_dual[OF Mj jn(1) V Dj st']
    have "matching nr nc (Suc (nat j)) x'" "duals_ok T cost nr nc (Suc (nat j)) x'" .
    moreover from j have "nat (j + 1) = Suc (nat j)" by simp
    ultimately show "?I (j + 1) x'" using j by simp
  qed
  then show ?thesis by simp
qed


lemma view_ok_matrix2d:
  assumes len: "length cost = nat (nr0 * nc0)" and pos: "0 \<le> nr0" "0 \<le> nc0"
    and ok: "\<forall>c\<in>set cost. widen T c = PInf \<or> fin (widen T c)"
  shows "view_ok T (matrix2d cost nr0 nc0) (nat nr0) (nat nc0)"
  unfolding view_ok_def
proof (intro conjI allI impI)
  show "view_defined T (matrix2d cost nr0 nc0) (nat nr0) (nat nc0)"
    by (rule matrix2d_view_defined(1)[OF len pos])
next
  fix i j assume i: "i < nat nr0" and j: "j < nat nc0"
  then have b: "0 \<le> int i" "int i < nr0" "0 \<le> int j" "int j < nc0" by simp_all
  from in_bounds_index[OF b] len have "nat (int i * nc0 + int j) < length cost" by simp
  then have "cost ! nat (int i * nc0 + int j) \<in> set cost" by simp
  with ok matrix2d_view_defined(2)[OF len pos b, of T]
  show "cst T (matrix2d cost nr0 nc0) i j = PInf \<or> fin (cst T (matrix2d cost nr0 nc0) i j)"
    by (simp add: cst_def)
qed

text \<open>
  C6.  The arithmetic of the model is exact on finite values.  Let the view hold, in its
  working range, only finite values and \<open>+infinity\<close> (what the input validation of \<open>solve\<close>
  leaves), and let the main loop, started from the initial workspace, have completed \<open>k\<close>
  rows and be in state \<open>t\<close>.  Then (1) the rows \<open>0..k-1\<close> are matched, and in \<open>t\<close> the duals are
  feasible on them, \<open>u[i] + v[j] \<le> C_view(i, j)\<close> for every column \<open>j\<close>, and tight on their
  pairs, \<open>u[i] + v[col4row[i]] = C_view(i, col4row[i])\<close>; (2) if the search of row \<open>k\<close> finds a
  sink, then in the state \<open>w2\<close> right after the dual update of row \<open>k\<close> (before the
  augmentation) the pairs are those of \<open>t\<close>, the duals are tight on them and feasible on the
  rows \<open>0..k\<close>, the row being processed included.
\<close>

theorem dual_feasibility:
  assumes "init_workspace (int nr) (int nc) = Some w0" and "view_ok T cost nr nc"
    and "k \<le> nr"
    and "for_loop_ret 0 (int k) (main_step T (int nr) (int nc) cost) w0 = Some (Inr t)"
  shows "(matching nr nc k t \<and> feasible T cost nc k t \<and> tight T cost k t) \<and>
         (k < nr \<and> augmenting_path T (int nc) cost t (int k) = Some (sink, m, w1) \<and>
          \<not> sink < 0 \<and> update_duals (int nr) (int nc) (int k) m w1 = Some w2 \<longrightarrow>
          col4row w2 = col4row t \<and> feasible T cost nc (Suc k) w2 \<and> tight T cost k w2)"
proof -
  from main_loop_dual[OF assms] have M: "matching nr nc k t" and D: "duals_ok T cost nr nc k t"
    by simp_all
  from D have A: "feasible T cost nc k t \<and> tight T cost k t" by (simp add: duals_ok_iff)
  have B: "col4row w2 = col4row t \<and> feasible T cost nc (Suc k) w2 \<and> tight T cost k w2"
    if h: "k < nr \<and> augmenting_path T (int nc) cost t (int k) = Some (sink, m, w1) \<and>
          \<not> sink < 0 \<and> update_duals (int nr) (int nc) (int k) m w1 = Some w2"
  proof -
    from h have k: "k < nr" and ap: "augmenting_path T (int nc) cost t (int k) = Some (sink, m, w1)"
      and ns: "\<not> sink < 0" and ud: "update_duals (int nr) (int nc) (int k) m w1 = Some w2"
      by blast+
    note r = after_update[OF M k assms(2) D ap ns ud]
    from augmenting_path_frame[OF ap] update_duals_only[OF ud]
    have "col4row w2 = col4row t" by (simp add: same_duals_matching_def duals_only_def)
    with r(3,4) show ?thesis by simp
  qed
  from M A B show ?thesis by blast
qed

definition dual_w0 :: workspace where
  "dual_w0 = \<lparr>u = [Fin 0, Fin 0], v = [Fin 0, Fin 0], shortestPathCosts = [Fin 0, Fin 0],
     path = [- 1, - 1], col4row = [- 1, - 1], row4col = [- 1, - 1], SR = [False, False],
     SC = [False, False], remaining = [0, 0]\<rparr>"

definition dual_t1 :: workspace where
  "dual_t1 = \<lparr>u = [Fin 1, Fin 0], v = [Fin 0, Fin 0], shortestPathCosts = [Fin 4, Fin 1],
     path = [0, 0], col4row = [1, - 1], row4col = [- 1, 0], SR = [True, False],
     SC = [False, True], remaining = [0, 0]\<rparr>"

definition dual_w1 :: workspace where
  "dual_w1 = \<lparr>u = [Fin 1, Fin 0], v = [Fin 0, Fin 0], shortestPathCosts = [Fin 2, Fin 0],
     path = [1, 1], col4row = [1, - 1], row4col = [- 1, 0], SR = [True, True],
     SC = [True, True], remaining = [0, 0]\<rparr>"

definition dual_w2 :: workspace where
  "dual_w2 = \<lparr>u = [Fin 3, Fin 2], v = [Fin 0, Fin (- 2)], shortestPathCosts = [Fin 2, Fin 0],
     path = [1, 1], col4row = [1, - 1], row4col = [- 1, 0], SR = [True, True],
     SC = [True, True], remaining = [0, 0]\<rparr>"

theorem dual_feasibility_witness:
  "init_workspace (int 2) (int 2) = Some dual_w0 \<and>
   for_loop_ret 0 (int 1) (main_step T_double (int 2) (int 2) (matrix2d (map Fin [4, 1, 2, 0]) 2 2))
     dual_w0 = Some (Inr dual_t1) \<and>
   augmenting_path T_double (int 2) (matrix2d (map Fin [4, 1, 2, 0]) 2 2) dual_t1 (int 1) =
     Some (0, Fin 2, dual_w1) \<and>
   update_duals (int 2) (int 2) (int 1) (Fin 2) dual_w1 = Some dual_w2 \<and>
   dle (dadd (u dual_w2 ! 0) (v dual_w2 ! 0)) (cst T_double (matrix2d (map Fin [4, 1, 2, 0]) 2 2) 0 0) \<and>
   dle (dadd (u dual_w2 ! 1) (v dual_w2 ! 0)) (cst T_double (matrix2d (map Fin [4, 1, 2, 0]) 2 2) 1 0) \<and>
   dadd (u dual_w2 ! 0) (v dual_w2 ! nat (col4row dual_w2 ! 0)) =
     cst T_double (matrix2d (map Fin [4, 1, 2, 0]) 2 2) 0 (nat (col4row dual_w2 ! 0))"
proof -
  let ?vw = "matrix2d (map Fin [4, 1, 2, 0]) 2 2"
  have iw: "init_workspace (int 2) (int 2) = Some dual_w0"
    by (simp add: init_workspace_def dual_w0_def eval_nat_numeral)
  have vo: "view_ok T_double ?vw 2 2"
    using view_ok_matrix2d[of "map Fin [4, 1, 2, 0]" 2 2 T_double] by (simp add: T_double_def)
  have run: "for_loop_ret 0 (int 1) (main_step T_double (int 2) (int 2) ?vw) dual_w0 =
      Some (Inr dual_t1)"
    by (simp add: dual_w0_def dual_t1_def eval_defs cong: weak_congs)
  have ap: "augmenting_path T_double (int 2) ?vw dual_t1 (int 1) = Some (0, Fin 2, dual_w1)"
    by (simp add: dual_t1_def dual_w1_def eval_defs cong: weak_congs)
  have ud: "update_duals (int 2) (int 2) (int 1) (Fin 2) dual_w1 = Some dual_w2"
    by (simp add: dual_w1_def dual_w2_def eval_defs cong: weak_congs)
  from dual_feasibility[OF iw vo _ run, of 0 "Fin 2" dual_w1 dual_w2] ap ud
  have "feasible T_double ?vw 2 (Suc 1) dual_w2 \<and> tight T_double ?vw 1 dual_w2" by simp
  then have "dle (dadd (u dual_w2 ! 0) (v dual_w2 ! 0)) (cst T_double ?vw 0 0) \<and>
     dle (dadd (u dual_w2 ! 1) (v dual_w2 ! 0)) (cst T_double ?vw 1 0) \<and>
     dadd (u dual_w2 ! 0) (v dual_w2 ! nat (col4row dual_w2 ! 0)) =
       cst T_double ?vw 0 (nat (col4row dual_w2 ! 0))"
    unfolding feasible_def tight_def by simp
  with iw run ap ud show ?thesis by (simp only: simp_thms)
qed

end
